theory Spec2Isabelle
  imports Complex_Main "HOL-Library.AList"
begin

section \<open>Data model\<close>

text \<open>
  A \<open>Place\<close> is a JavaScript object: two places are the same place when they are the same
  object (\<open>===\<close>, \<open>includes\<close>, \<open>indexOf\<close> and the keys of a \<open>Map\<close> all compare
  references). A place is therefore a reference, and the fields of the objects live in
  the state, indexed by reference.
\<close>

type_synonym place = nat

record GeoPosition =
  latitude :: real
  longitude :: real
  altitude :: real

text \<open>
  The fields of a place that the progression logic reads. \<open>distanceToVisit\<close> is the
  private field of \<open>GeoLocationPlace\<close>; \<open>distanceToActivate\<close> is the property that
  \<open>NavigationDataComponent.update\<close> reads through \<open>(this.selectedPlace as any)\<close>: it is
  \<open>None\<close> (undefined) on an object that has no such property, which is the case of every
  object built by the constructor of \<open>GeoLocationPlace\<close>.
\<close>

record place_obj =
  name :: string
  geoPosition :: GeoPosition
  distanceToVisit :: real
  distanceToActivate :: "real option"

datatype NavigationStatus = LocationNotSelected | Initializing | InProgress | Succeeded

text \<open>The field \<open>selectedPlace\<close> has no initialiser: it is \<open>undefined\<close> until first written.\<close>

datatype selected = Undefined | Null | Ref place

datatype event =
    NavigationStarted "place option"
  | ArrivedAtPlace place
  | PlacesUpdated
  | AllPlacesVisited

datatype error = NullArgument | MalformedCoordinate string | TypeError

text \<open>
  The state of \<open>NavigationDataComponent\<close>, together with the \<open>_visited\<close> flag of every place
  object (\<open>visited\<close>), the other fields of the place objects (\<open>objs\<close>), the number of place
  objects constructed by \<open>ManualPlaceList.start\<close> (\<open>allocated\<close>) and the events invoked so
  far, oldest first (\<open>events\<close>). The two \<open>Map\<close>s are association lists in insertion order.
\<close>

record nav =
  places :: "place list"
  status :: NavigationStatus
  selectedPlace :: selected
  placesVisited :: "(place \<times> bool) list"
  placesAt :: "(place \<times> bool) list"
  emittedAllVisited :: bool
  hasArrivedAtSelectedPlace :: bool
  visited :: "place \<Rightarrow> bool"
  objs :: "place \<Rightarrow> place_obj"
  allocated :: nat
  events :: "event list"

record vec3 =
  vx :: real
  vy :: real
  vz :: real

text \<open>
  What the code reads from its collaborators at one moment. \<open>EditableUserPosition\<close>,
  \<open>UserPosition\<close>, \<open>NavigationUtils\<close> and the vector library of the host are not part of
  the sources at hand, so their results are parameters:
  \<^item> \<open>getDistanceTo\<close> is \<open>userPosition.getDistanceTo\<close>, \<open>userGeoPosition\<close> is
    \<open>userPosition.getGeoPosition()\<close> (\<open>None\<close> for null), \<open>userBearing\<close> is
    \<open>userPosition.getBearing()\<close>, \<open>geoLocalizationAvailable\<close> is the test
    \<open>userPosition.status === UserPositionStatus.GeoLocalizationAvailable\<close>;
  \<^item> \<open>transformBack\<close> and \<open>transformWorldPosition\<close> are \<open>back\<close> and
    \<open>getWorldPosition()\<close> of \<open>userPosition.getRelativeTransform()\<close>;
  \<^item> \<open>physicalDistance\<close> is \<open>getPhysicalDistanceBetweenLocations\<close>, \<open>calculateBearing\<close>
    and \<open>normalizeAngle\<close> are the functions of these names (the first may throw on a null
    position: \<open>Inl\<close>);
  \<^item> \<open>projectOnPlaneUpNormalize v\<close> is \<open>v.projectOnPlane(vec3.up()).normalize()\<close> and
    \<open>rotateY a v\<close> is \<open>quat.fromEulerAngles(0, a, 0).multiplyVec3(v)\<close>.
\<close>

record env =
  getDistanceTo :: "place \<Rightarrow> real option"
  userGeoPosition :: "GeoPosition option"
  userBearing :: real
  geoLocalizationAvailable :: bool
  transformBack :: vec3
  transformWorldPosition :: vec3
  physicalDistance :: "GeoPosition \<Rightarrow> GeoPosition \<Rightarrow> real"
  calculateBearing :: "GeoPosition option \<Rightarrow> GeoPosition \<Rightarrow> error + real"
  normalizeAngle :: "real \<Rightarrow> real"
  projectOnPlaneUpNormalize :: "vec3 \<Rightarrow> vec3"
  rotateY :: "real \<Rightarrow> vec3 \<Rightarrow> vec3"

text \<open>One entry of the \<open>placeInputs\<close> of \<open>ManualPlaceList\<close> (the prefab fields are left out).\<close>

record GeoPlaceInput =
  input_active :: bool
  input_latitude :: string
  input_longitude :: string
  input_label :: string
  input_distanceToActivate :: real

definition initial :: "(place \<Rightarrow> place_obj) \<Rightarrow> nav" where
  "initial os = \<lparr> places = [], status = Initializing, selectedPlace = Undefined,
     placesVisited = [], placesAt = [], emittedAllVisited = False,
     hasArrivedAtSelectedPlace = False, visited = (\<lambda>_. False), objs = os,
     allocated = 0, events = [] \<rparr>"

section \<open>Helpers of the host language\<close>

definition emit :: "event \<Rightarrow> nav \<Rightarrow> nav" where
  "emit ev s = s\<lparr>events := events s @ [ev]\<rparr>"

text \<open>\<open>Array.prototype.indexOf\<close>: the first index, or -1.\<close>

fun indexOf :: "'a list \<Rightarrow> 'a \<Rightarrow> int" where
  "indexOf [] x = - 1"
| "indexOf (y # ys) x =
     (if y = x then 0 else (let r = indexOf ys x in if r < 0 then - 1 else r + 1))"

text \<open>Reading an array at an index: \<open>undefined\<close> (\<open>None\<close>) outside the array.\<close>

definition at_index :: "'a list \<Rightarrow> int \<Rightarrow> 'a option" where
  "at_index xs i = (if 0 \<le> i \<and> i < int (length xs) then Some (xs ! nat i) else None)"

definition toSelected :: "place option \<Rightarrow> selected" where
  "toSelected pl = (case pl of None \<Rightarrow> Null | Some p \<Rightarrow> Ref p)"

section \<open>Place: the per-frame visited check\<close>

definition getPhysicalDistance :: "env \<Rightarrow> nav \<Rightarrow> place \<Rightarrow> real option" where
  "getPhysicalDistance e s p =
     (case userGeoPosition e of
        None \<Rightarrow> None
      | Some g \<Rightarrow> Some (physicalDistance e g (geoPosition (objs s p))))"

definition checkVisited :: "env \<Rightarrow> nav \<Rightarrow> place \<Rightarrow> bool" where
  "checkVisited e s p =
     (case getPhysicalDistance e s p of
        None \<Rightarrow> False
      | Some distance \<Rightarrow> distance < distanceToVisit (objs s p))"

text \<open>The public setter \<open>set visited(value)\<close> of \<open>Place\<close>.\<close>

definition setVisited :: "place \<Rightarrow> bool \<Rightarrow> nav \<Rightarrow> nav" where
  "setVisited p value s = s\<lparr>visited := (visited s)(p := value)\<rparr>"

text \<open>The callback that the constructor of \<open>Place\<close> binds to the update event.\<close>

definition placeUpdate :: "env \<Rightarrow> place \<Rightarrow> nav \<Rightarrow> nav" where
  "placeUpdate e p s =
     (if checkVisited e s p then s\<lparr>visited := (visited s)(p := True)\<rparr> else s)"

section \<open>NavigationDataComponent\<close>

text \<open>The body of \<open>addPlace\<close> after its null check.\<close>

definition addPlace_body :: "place \<Rightarrow> nav \<Rightarrow> nav" where
  "addPlace_body p s =
     (if p \<notin> set (places s) then
        (emit PlacesUpdated
           (s\<lparr>places := places s @ [p],
              placesVisited := AList.update p False (placesVisited s),
              placesAt := AList.update p False (placesAt s)\<rparr>))
        \<lparr>emittedAllVisited := False\<rparr>
      else s)"

definition addPlace :: "place option \<Rightarrow> nav \<Rightarrow> error + nav" where
  "addPlace pl s = (case pl of None \<Rightarrow> Inl NullArgument | Some p \<Rightarrow> Inr (addPlace_body p s))"

definition removePlace :: "place \<Rightarrow> nav \<Rightarrow> nav" where
  "removePlace p s =
     (let sizeBefore = length (places s);
          s1 = s\<lparr>places := filter (\<lambda>m. m \<noteq> p) (places s),
                 placesVisited := AList.delete p (placesVisited s),
                 placesAt := AList.delete p (placesAt s)\<rparr>
      in if length (places s1) \<noteq> sizeBefore then emit PlacesUpdated s1 else s1)"

text \<open>
  First part of \<open>update\<close>: the arrival test of the selected place. The activation distance
  is \<open>distanceToActivate ?? 10\<close>; \<open>prev\<close> is \<open>this._places[currentIdx - 1]\<close>, undefined when
  the selected place is first in the list or is not in the list.
\<close>

definition arrivalCheck :: "env \<Rightarrow> place \<Rightarrow> nav \<Rightarrow> nav" where
  "arrivalCheck e sp s =
     (let distance = getDistanceTo e sp;
          distanceToActivate = (case distanceToActivate (objs s sp) of Some r \<Rightarrow> r | None \<Rightarrow> 10);
          currentIdx = indexOf (places s) sp;
          prev = at_index (places s) (currentIdx - 1);
          prevVisited = (case prev of None \<Rightarrow> True | Some q \<Rightarrow> visited s q)
      in if (case distance of None \<Rightarrow> False | Some d \<Rightarrow> d \<le> distanceToActivate)
            \<and> prevVisited \<and> \<not> visited s sp
         then (emit (ArrivedAtPlace sp) (s\<lparr>visited := (visited s)(sp := True)\<rparr>))
                \<lparr>hasArrivedAtSelectedPlace := True\<rparr>
         else s)"

text \<open>The search loop: the first unvisited place after the selected one.\<close>

definition nextUnvisited :: "place \<Rightarrow> nav \<Rightarrow> place option" where
  "nextUnvisited sp s =
     find (\<lambda>q. \<not> visited s q) (drop (nat (indexOf (places s) sp + 1)) (places s))"

text \<open>One iteration of the loop "Guided experience (strict sequential order)".\<close>

definition sweep_step :: "nat \<Rightarrow> nav \<Rightarrow> nav" where
  "sweep_step i s =
     (let p = places s ! i;
          atPlace = visited s p
      in if map_of (placesAt s) p \<noteq> Some atPlace then
           (if atPlace then
              (let isFirst = (i = 0);
                   prevVisited = (isFirst \<or> visited s (places s ! (i - 1)))
               in if prevVisited then
                    (emit (ArrivedAtPlace p) s)
                      \<lparr>placesVisited := AList.update p True (placesVisited s),
                       placesAt := AList.update p True (placesAt s)\<rparr>
                  else s\<lparr>visited := (visited s)(p := False)\<rparr>)
            else s\<lparr>placesAt := AList.update p False (placesAt s)\<rparr>)
         else s)"

text \<open>The loop runs over the indices of \<open>_places\<close>, which its body does not change.\<close>

definition sweep :: "nav \<Rightarrow> nav" where
  "sweep s = fold sweep_step [0..<length (places s)] s"

definition completionCheck :: "nav \<Rightarrow> nav" where
  "completionCheck s =
     (if \<not> emittedAllVisited s then
        (let allVisited = fold (\<lambda>(pl, v) a. a \<and> v) (placesVisited s)
                            (length (placesVisited s) > 0)
         in if allVisited then emit AllPlacesVisited (s\<lparr>emittedAllVisited := True\<rparr>) else s)
      else s)"

text \<open>
  \<open>update\<close> and \<open>navigateToPlace\<close> call each other: \<open>update\<close> calls \<open>navigateToPlace\<close> after it
  has set \<open>selectedPlace\<close> to null, and \<open>navigateToPlace\<close> calls \<open>update\<close> before it writes
  \<open>selectedPlace\<close>, so the inner \<open>update\<close> skips its first part.
\<close>

function update :: "env \<Rightarrow> nav \<Rightarrow> nav"
  and navigateToPlace :: "env \<Rightarrow> place option \<Rightarrow> nav \<Rightarrow> nav" where
  "update e s =
     completionCheck (sweep
       (case selectedPlace s of
          Ref sp \<Rightarrow>
            (let s1 = arrivalCheck e sp s;
                 atPlace = visited s1 sp
             in if atPlace then
                  (let s2 = (emit (ArrivedAtPlace sp) s1)\<lparr>hasArrivedAtSelectedPlace := True\<rparr>
                   in if hasArrivedAtSelectedPlace s2 then
                        (case nextUnvisited sp s2 of
                           Some nextPlace \<Rightarrow>
                             navigateToPlace e (Some nextPlace) (s2\<lparr>selectedPlace := Null\<rparr>)
                         | None \<Rightarrow> s2\<lparr>selectedPlace := Null, status := Succeeded\<rparr>)
                      else s2)
                else s1)
        | _ \<Rightarrow> s))"
| "navigateToPlace e pl s =
     (if selectedPlace s = toSelected pl then s
      else
        (let s1 = (case pl of
                     Some p \<Rightarrow> if p \<notin> set (places s) then addPlace_body p s else s
                   | None \<Rightarrow> s);
             s2 = s1\<lparr>status := (case pl of None \<Rightarrow> LocationNotSelected | Some _ \<Rightarrow> InProgress)\<rparr>;
             s3 = update e s2
         in emit (NavigationStarted pl)
              (s3\<lparr>selectedPlace := toSelected pl, hasArrivedAtSelectedPlace := False\<rparr>)))"
  by pat_completeness auto
termination
  by (relation "measure (\<lambda>x. case x of
          Inl (e, s) \<Rightarrow> (case selectedPlace s of Ref _ \<Rightarrow> 3 | _ \<Rightarrow> 1)
        | Inr (e, pl, s) \<Rightarrow> (case selectedPlace s of Ref _ \<Rightarrow> 4 | _ \<Rightarrow> 2))")
     (auto simp: addPlace_body_def emit_def split: selected.splits option.splits)

declare update.simps [simp del] navigateToPlace.simps [simp del]

definition stopNavigation :: "env \<Rightarrow> nav \<Rightarrow> nav" where
  "stopNavigation e s = navigateToPlace e None s"

section \<open>GeoLocationPlace: the relative position\<close>

text \<open>Arithmetic on a value that may be null converts null to 0.\<close>

definition toNumber :: "real option \<Rightarrow> real" where
  "toNumber v = (case v of None \<Rightarrow> 0 | Some r \<Rightarrow> r)"

definition vec3_add :: "vec3 \<Rightarrow> vec3 \<Rightarrow> vec3" where
  "vec3_add a b = \<lparr>vx = vx a + vx b, vy = vy a + vy b, vz = vz a + vz b\<rparr>"

definition uniformScale :: "vec3 \<Rightarrow> real \<Rightarrow> vec3" where
  "uniformScale a k = \<lparr>vx = vx a * k, vy = vy a * k, vz = vz a * k\<rparr>"

definition getBearing :: "env \<Rightarrow> nav \<Rightarrow> place \<Rightarrow> error + real option" where
  "getBearing e s p =
     (if \<not> geoLocalizationAvailable e then Inr None
      else (case calculateBearing e (userGeoPosition e) (geoPosition (objs s p)) of
              Inl err \<Rightarrow> Inl err
            | Inr locationBearing \<Rightarrow> Inr (Some (normalizeAngle e locationBearing))))"

text \<open>The result is \<open>Inl\<close> for an exception, \<open>Inr None\<close> for null, \<open>Inr (Some v)\<close> for a point.\<close>

definition calculateRelativePosition :: "env \<Rightarrow> nav \<Rightarrow> place \<Rightarrow> real \<Rightarrow> error + vec3 option" where
  "calculateRelativePosition e s p yOffset =
     (let cameraForward = transformBack e;
          userForward = projectOnPlaneUpNormalize e cameraForward;
          distance = getPhysicalDistance e s p
      in case getBearing e s p of
           Inl err \<Rightarrow> Inl err
         | Inr b \<Rightarrow>
             (let bearing = toNumber b - userBearing e;
                  pinAltitude = altitude (geoPosition (objs s p));
                  userAltitude = (case userGeoPosition e of None \<Rightarrow> 0 | Some g \<Rightarrow> altitude g);
                  projectedPosition =
                    vec3_add
                      (vec3_add (transformWorldPosition e)
                         (uniformScale (rotateY e (- bearing) userForward) (toNumber distance * 100)))
                      \<lparr>vx = 0, vy = yOffset + (pinAltitude - userAltitude) * 100, vz = 0\<rparr>
              in Inr (Some (projectedPosition\<lparr>vy := vy (transformWorldPosition e)\<rparr>))))"

definition getRelativePosition :: "env \<Rightarrow> nav \<Rightarrow> place \<Rightarrow> error + vec3 option" where
  "getRelativePosition e s p = calculateRelativePosition e s p 0"

section \<open>ManualPlaceList.start\<close>

text \<open>
  Modelled from the spec: \<open>convertToNumber\<close> of \<open>NavigationUtils\<close> is not among the sources.
  The spec says that the latitude and longitude strings are parsed into floats at
  registration time and that a malformed string must fail with a clear error rather than
  default to 0. Which strings parse, and to what, is the parameter \<open>parse\<close>.
\<close>

definition convertToNumber :: "(string \<Rightarrow> real option) \<Rightarrow> string \<Rightarrow> error + real" where
  "convertToNumber parse str =
     (case parse str of None \<Rightarrow> Inl (MalformedCoordinate str) | Some r \<Rightarrow> Inr r)"

text \<open>
  \<open>new GeoLocationPlace(...)\<close>: a new object, unvisited, that has no \<open>distanceToActivate\<close>
  property. Its reference is the next free one.
\<close>

definition newGeoLocationPlace :: "GeoPosition \<Rightarrow> real \<Rightarrow> string \<Rightarrow> nav \<Rightarrow> place \<times> nav" where
  "newGeoLocationPlace g d n s =
     (let r = allocated s
      in (r, s\<lparr>visited := (visited s)(r := False),
               objs := (objs s)(r := \<lparr>name = n, geoPosition = g, distanceToVisit = d,
                                      distanceToActivate = None\<rparr>),
               allocated := Suc r\<rparr>))"

text \<open>
  The \<open>forEach\<close> of \<open>start\<close>; \<open>g0\<close> is the object that \<open>GeoPosition.create()\<close> returns. An
  exception leaves the loop: the result is the state reached and the error thrown, if any.
\<close>

fun start :: "(string \<Rightarrow> real option) \<Rightarrow> GeoPosition \<Rightarrow> GeoPlaceInput list \<Rightarrow> nav
    \<Rightarrow> nav \<times> error option" where
  "start parse g0 [] s = (s, None)"
| "start parse g0 (m # ms) s =
     (if input_active m then
        (case convertToNumber parse (input_longitude m) of
           Inl err \<Rightarrow> (s, Some err)
         | Inr lon \<Rightarrow>
             (case convertToNumber parse (input_latitude m) of
                Inl err \<Rightarrow> (s, Some err)
              | Inr lat \<Rightarrow>
                  (let geoPosition = g0\<lparr>longitude := lon, latitude := lat\<rparr>;
                       (place, s1) = newGeoLocationPlace geoPosition (input_distanceToActivate m)
                                       (input_label m) s
                   in case addPlace (Some place) s1 of
                        Inl err \<Rightarrow> (s1, Some err)
                      | Inr s2 \<Rightarrow> start parse g0 ms s2)))
      else start parse g0 ms s)"

section \<open>Runs of the component\<close>

text \<open>
  What can happen to the component and its places: a tick of the component, the per-frame
  callback of one place, and the calls of the public methods.
\<close>

datatype action =
    Tick env
  | PlaceUpdate env place
  | AddPlace "place option"
  | RemovePlace place
  | NavigateToPlace env "place option"

fun step :: "action \<Rightarrow> nav \<Rightarrow> nav" where
  "step (Tick e) s = update e s"
| "step (PlaceUpdate e p) s = placeUpdate e p s"
| "step (AddPlace pl) s = (case addPlace pl s of Inl err \<Rightarrow> s | Inr s' \<Rightarrow> s')"
| "step (RemovePlace p) s = removePlace p s"
| "step (NavigateToPlace e pl) s = navigateToPlace e pl s"

definition run :: "action list \<Rightarrow> nav \<Rightarrow> nav" where
  "run acts s = fold step acts s"

inductive reachable :: "nav \<Rightarrow> bool" where
  reachable_initial: "reachable (initial os)"
| reachable_step: "reachable s \<Longrightarrow> reachable (step a s)"

text \<open>
  An action registers a place when it runs the body of \<open>addPlace\<close> on a place that is not
  in the list: \<open>addPlace\<close> itself, or \<open>navigateToPlace\<close> with a place that is neither selected
  nor in the list.
\<close>

fun registers :: "action \<Rightarrow> nav \<Rightarrow> bool" where
  "registers (AddPlace (Some p)) s = (p \<notin> set (places s))"
| "registers (NavigateToPlace e (Some p)) s = (selectedPlace s \<noteq> Ref p \<and> p \<notin> set (places s))"
| "registers _ s = False"

text \<open>No action of the run registers a place in the state in which it happens.\<close>

fun noRegistration :: "action list \<Rightarrow> nav \<Rightarrow> bool" where
  "noRegistration [] s = True"
| "noRegistration (a # acts) s = (\<not> registers a s \<and> noRegistration acts (step a s))"

section \<open>Observations\<close>

text \<open>The events invoked by an operation: those of its log when it starts from an empty log.\<close>

definition clearEvents :: "nav \<Rightarrow> nav" where
  "clearEvents s = s\<lparr>events := []\<rparr>"

definition arrivedCount :: "place \<Rightarrow> nav \<Rightarrow> nat" where
  "arrivedCount p s = count_list (events s) (ArrivedAtPlace p)"

definition allVisitedCount :: "nav \<Rightarrow> nat" where
  "allVisitedCount s = count_list (events s) AllPlacesVisited"

fun isNavigationStarted :: "event \<Rightarrow> bool" where
  "isNavigationStarted (NavigationStarted pl) = True"
| "isNavigationStarted _ = False"

definition navigationStartedCount :: "nav \<Rightarrow> nat" where
  "navigationStartedCount s = length (filter isNavigationStarted (events s))"

text \<open>A place is confirmed when the component has recorded it as arrived at.\<close>

definition confirmed :: "nav \<Rightarrow> place \<Rightarrow> bool" where
  "confirmed s p = (map_of (placesAt s) p = Some True)"

text \<open>No place of the list is visited while the place before it is not.\<close>

definition sequential :: "nav \<Rightarrow> bool" where
  "sequential s =
     (\<forall>i. Suc i < length (places s) \<longrightarrow> visited s (places s ! Suc i) \<longrightarrow> visited s (places s ! i))"

definition allPlacesVisited :: "nav \<Rightarrow> bool" where
  "allPlacesVisited s = (places s \<noteq> [] \<and> (\<forall>p \<in> set (places s). visited s p))"

text \<open>
  The invariant of the reachable states: the list has no duplicates, a confirmed place is
  visited and recorded as visited, the confirmed places of the list come before the others,
  and the keys of \<open>placesVisited\<close> are the places of the list.
\<close>

definition invariant :: "nav \<Rightarrow> bool" where
  "invariant s =
     (distinct (places s)
      \<and> (\<forall>p. confirmed s p \<longrightarrow> visited s p \<and> map_of (placesVisited s) p = Some True)
      \<and> sorted_wrt (\<lambda>a b. confirmed s b \<longrightarrow> confirmed s a) (places s)
      \<and> fst ` set (placesVisited s) = set (places s)
      \<and> distinct (map fst (placesVisited s)))"

text \<open>The places before index \<open>k\<close> are as the sweep leaves them.\<close>

definition swept_upto :: "nat \<Rightarrow> nav \<Rightarrow> bool" where
  "swept_upto k t =
     (\<forall>i<k. visited t (places t ! i) \<longrightarrow>
        confirmed t (places t ! i) \<and> (0 < i \<longrightarrow> visited t (places t ! (i - 1))))"

text \<open>
  From \<open>s\<close> to \<open>s'\<close> the event "all places visited" was invoked once if the latch
  \<open>emittedAllVisited\<close> went from unset to set, and not at all otherwise; the latch was not
  reset.
\<close>

definition latched_step :: "nav \<Rightarrow> nav \<Rightarrow> bool" where
  "latched_step s s' =
     (allVisitedCount s' + (if emittedAllVisited s then 1 else 0)
        = allVisitedCount s + (if emittedAllVisited s' then 1 else 0)
      \<and> (emittedAllVisited s \<longrightarrow> emittedAllVisited s'))"

section \<open>Example data\<close>

definition origin :: GeoPosition where
  "origin = \<lparr>latitude = 0, longitude = 0, altitude = 0\<rparr>"

text \<open>Places built by \<open>GeoLocationPlace\<close> with an activation radius of 10 m.\<close>

definition plain_objs :: "place \<Rightarrow> place_obj" where
  "plain_objs = (\<lambda>_. \<lparr>name = ''P'', geoPosition = origin, distanceToVisit = 10,
                        distanceToActivate = None\<rparr>)"

definition zero3 :: vec3 where
  "zero3 = \<lparr>vx = 0, vy = 0, vz = 0\<rparr>"

text \<open>The user has a fix and is \<open>d\<close> metres from every place.\<close>

definition near :: "real \<Rightarrow> env" where
  "near d = \<lparr>getDistanceTo = (\<lambda>_. Some d), userGeoPosition = Some origin, userBearing = 0,
     geoLocalizationAvailable = True, transformBack = zero3, transformWorldPosition = zero3,
     physicalDistance = (\<lambda>_ _. d), calculateBearing = (\<lambda>_ _. Inr 0),
     normalizeAngle = (\<lambda>a. a), projectOnPlaneUpNormalize = (\<lambda>v. v), rotateY = (\<lambda>_ v. v)\<rparr>"

text \<open>The user has no fix yet.\<close>

definition no_fix :: env where
  "no_fix = \<lparr>getDistanceTo = (\<lambda>_. None), userGeoPosition = None, userBearing = 0,
     geoLocalizationAvailable = False, transformBack = \<lparr>vx = 0, vy = 0, vz = 1\<rparr>,
     transformWorldPosition = \<lparr>vx = 1, vy = 2, vz = 3\<rparr>,
     physicalDistance = (\<lambda>_ _. 0), calculateBearing = (\<lambda>_ _. Inl TypeError),
     normalizeAngle = (\<lambda>a. a), projectOnPlaneUpNormalize = (\<lambda>v. v), rotateY = (\<lambda>_ v. v)\<rparr>"

text \<open>A parser that accepts two coordinate strings and rejects every other string.\<close>

definition example_parse :: "string \<Rightarrow> real option" where
  "example_parse str =
     (if str = ''50.45'' then Some 50.45 else if str = ''30.52'' then Some 30.52 else None)"

definition example_input :: "bool \<Rightarrow> string \<Rightarrow> string \<Rightarrow> GeoPlaceInput" where
  "example_input act lat lon =
     \<lparr>input_active = act, input_latitude = lat, input_longitude = lon, input_label = ''W'',
      input_distanceToActivate = 10\<rparr>"

section \<open>Basic facts\<close>

lemma emit_simps [simp]:
  "places (emit ev s) = places s" "status (emit ev s) = status s"
  "selectedPlace (emit ev s) = selectedPlace s" "placesVisited (emit ev s) = placesVisited s"
  "placesAt (emit ev s) = placesAt s" "emittedAllVisited (emit ev s) = emittedAllVisited s"
  "hasArrivedAtSelectedPlace (emit ev s) = hasArrivedAtSelectedPlace s"
  "visited (emit ev s) = visited s" "objs (emit ev s) = objs s" "allocated (emit ev s) = allocated s"
  "events (emit ev s) = events s @ [ev]"
  by (simp_all add: emit_def)

lemma sweep_step_frame [simp]:
  "places (sweep_step i s) = places s" "status (sweep_step i s) = status s"
  "selectedPlace (sweep_step i s) = selectedPlace s"
  "emittedAllVisited (sweep_step i s) = emittedAllVisited s"
  "hasArrivedAtSelectedPlace (sweep_step i s) = hasArrivedAtSelectedPlace s"
  "objs (sweep_step i s) = objs s" "allocated (sweep_step i s) = allocated s"
  by (simp_all add: sweep_step_def Let_def)

lemma fold_sweep_step_frame [simp]:
  "places (fold sweep_step is s) = places s" "status (fold sweep_step is s) = status s"
  "selectedPlace (fold sweep_step is s) = selectedPlace s"
  "emittedAllVisited (fold sweep_step is s) = emittedAllVisited s"
  "hasArrivedAtSelectedPlace (fold sweep_step is s) = hasArrivedAtSelectedPlace s"
  "objs (fold sweep_step is s) = objs s" "allocated (fold sweep_step is s) = allocated s"
  by (induction "is" arbitrary: s; simp)+

lemma sweep_frame [simp]:
  "places (sweep s) = places s" "status (sweep s) = status s"
  "selectedPlace (sweep s) = selectedPlace s"
  "emittedAllVisited (sweep s) = emittedAllVisited s"
  "hasArrivedAtSelectedPlace (sweep s) = hasArrivedAtSelectedPlace s"
  "objs (sweep s) = objs s" "allocated (sweep s) = allocated s"
  by (simp_all add: sweep_def)

lemma completionCheck_frame [simp]:
  "places (completionCheck s) = places s" "status (completionCheck s) = status s"
  "selectedPlace (completionCheck s) = selectedPlace s"
  "placesVisited (completionCheck s) = placesVisited s"
  "placesAt (completionCheck s) = placesAt s"
  "hasArrivedAtSelectedPlace (completionCheck s) = hasArrivedAtSelectedPlace s"
  "visited (completionCheck s) = visited s"
  "objs (completionCheck s) = objs s" "allocated (completionCheck s) = allocated s"
  by (simp_all add: completionCheck_def Let_def)

lemma arrivalCheck_frame [simp]:
  "places (arrivalCheck e sp s) = places s" "status (arrivalCheck e sp s) = status s"
  "selectedPlace (arrivalCheck e sp s) = selectedPlace s"
  "placesVisited (arrivalCheck e sp s) = placesVisited s"
  "placesAt (arrivalCheck e sp s) = placesAt s"
  "emittedAllVisited (arrivalCheck e sp s) = emittedAllVisited s"
  "objs (arrivalCheck e sp s) = objs s" "allocated (arrivalCheck e sp s) = allocated s"
  by (simp_all add: arrivalCheck_def Let_def)

lemma placeUpdate_frame [simp]:
  "places (placeUpdate e p s) = places s" "status (placeUpdate e p s) = status s"
  "selectedPlace (placeUpdate e p s) = selectedPlace s"
  "placesVisited (placeUpdate e p s) = placesVisited s"
  "placesAt (placeUpdate e p s) = placesAt s"
  "emittedAllVisited (placeUpdate e p s) = emittedAllVisited s"
  "hasArrivedAtSelectedPlace (placeUpdate e p s) = hasArrivedAtSelectedPlace s"
  "objs (placeUpdate e p s) = objs s" "allocated (placeUpdate e p s) = allocated s"
  "events (placeUpdate e p s) = events s"
  by (simp_all add: placeUpdate_def)

lemma update_no_selection:
  "\<forall>sp. selectedPlace s \<noteq> Ref sp \<Longrightarrow> update e s = completionCheck (sweep s)"
  by (cases "selectedPlace s") (simp_all add: update.simps)

lemma navigateToPlace_same:
  "selectedPlace s = toSelected pl \<Longrightarrow> navigateToPlace e pl s = s"
  by (simp add: navigateToPlace.simps)

lemma selectedPlace_navigateToPlace [simp]:
  "selectedPlace (navigateToPlace e pl s) = toSelected pl"
  by (simp add: navigateToPlace.simps Let_def)

lemma nextUnvisited_in_places:
  "nextUnvisited sp s = Some np \<Longrightarrow> np \<in> set (places s)"
  unfolding nextUnvisited_def by (auto simp: find_Some_iff dest: in_set_dropD)

lemma navigateToPlace_advance:
  "selectedPlace s = Null \<Longrightarrow> np \<in> set (places s) \<Longrightarrow>
   navigateToPlace e (Some np) s =
     emit (NavigationStarted (Some np))
       ((completionCheck (sweep (s\<lparr>status := InProgress\<rparr>)))
          \<lparr>selectedPlace := Ref np, hasArrivedAtSelectedPlace := False\<rparr>)"
  by (simp add: navigateToPlace.simps[of e "Some np" s] toSelected_def Let_def update_no_selection)

text \<open>The tick with a selected place, with the call of \<open>navigateToPlace\<close> unfolded.\<close>

lemma update_selected:
  assumes "selectedPlace s = Ref sp"
  shows "update e s =
     completionCheck (sweep
       (let s1 = arrivalCheck e sp s
        in if visited s1 sp then
             (let s2 = (emit (ArrivedAtPlace sp) s1)\<lparr>hasArrivedAtSelectedPlace := True\<rparr>
              in case nextUnvisited sp s2 of
                   Some np \<Rightarrow>
                     emit (NavigationStarted (Some np))
                       ((completionCheck (sweep (s2\<lparr>selectedPlace := Null, status := InProgress\<rparr>)))
                          \<lparr>selectedPlace := Ref np, hasArrivedAtSelectedPlace := False\<rparr>)
                 | None \<Rightarrow> s2\<lparr>selectedPlace := Null, status := Succeeded\<rparr>)
           else s1))"
proof -
  have adv: "navigateToPlace e (Some np) (s2\<lparr>selectedPlace := Null\<rparr>) =
      emit (NavigationStarted (Some np))
        ((completionCheck (sweep (s2\<lparr>selectedPlace := Null, status := InProgress\<rparr>)))
           \<lparr>selectedPlace := Ref np, hasArrivedAtSelectedPlace := False\<rparr>)"
    if "nextUnvisited sp s2 = Some np" for np s2
    using nextUnvisited_in_places[OF that] by (simp add: navigateToPlace_advance)
  show ?thesis
    using assms by (simp add: update.simps[of e s] Let_def adv split: option.splits)
qed

section \<open>The sweep and the invariant\<close>

lemma map_of_AList_update:
  "map_of (AList.update k v al) q = (if q = k then Some v else map_of al q)"
  by (simp add: update_conv')

lemma keys_delete: "fst ` set (AList.delete k al) = fst ` set al - {k}"
  by (induct al) auto

lemma sweep_step_visited:
  "visited (sweep_step i s) q =
     (if q = places s ! i
      then visited s q \<and> (confirmed s q \<or> i = 0 \<or> visited s (places s ! (i - 1)))
      else visited s q)"
  by (auto simp: sweep_step_def Let_def confirmed_def)

lemma sweep_step_confirmed:
  "confirmed (sweep_step i s) q =
     (if q = places s ! i
      then visited s q \<and> (confirmed s q \<or> i = 0 \<or> visited s (places s ! (i - 1)))
      else confirmed s q)"
  by (auto simp: sweep_step_def Let_def confirmed_def map_of_AList_update)

lemma sweep_step_placesVisited:
  "map_of (placesVisited (sweep_step i s)) q =
     (if q = places s ! i \<and> visited s q \<and> \<not> confirmed s q
         \<and> (i = 0 \<or> visited s (places s ! (i - 1)))
      then Some True else map_of (placesVisited s) q)"
  by (auto simp: sweep_step_def Let_def confirmed_def map_of_AList_update)

lemma sweep_step_keys:
  "i < length (places s) \<Longrightarrow> fst ` set (placesVisited s) = set (places s) \<Longrightarrow>
   fst ` set (placesVisited (sweep_step i s)) = set (places s)"
  by (auto simp: sweep_step_def Let_def dom_update)

lemma sweep_step_distinct_keys:
  "distinct (map fst (placesVisited s)) \<Longrightarrow> distinct (map fst (placesVisited (sweep_step i s)))"
  by (auto simp: sweep_step_def Let_def distinct_update)

lemma invariantD:
  assumes "invariant s"
  shows "distinct (places s)"
    and "confirmed s p \<Longrightarrow> visited s p"
    and "confirmed s p \<Longrightarrow> map_of (placesVisited s) p = Some True"
    and "i < j \<Longrightarrow> j < length (places s) \<Longrightarrow> confirmed s (places s ! j) \<Longrightarrow> confirmed s (places s ! i)"
    and "fst ` set (placesVisited s) = set (places s)"
    and "distinct (map fst (placesVisited s))"
  using assms by (auto simp: invariant_def sorted_wrt_iff_nth_less)

lemma invariantI:
  assumes "distinct (places s)"
    and "\<And>p. confirmed s p \<Longrightarrow> visited s p \<and> map_of (placesVisited s) p = Some True"
    and "\<And>i j. i < j \<Longrightarrow> j < length (places s) \<Longrightarrow> confirmed s (places s ! j) \<Longrightarrow> confirmed s (places s ! i)"
    and "fst ` set (placesVisited s) = set (places s)"
    and "distinct (map fst (placesVisited s))"
  shows "invariant s"
  using assms by (auto simp: invariant_def sorted_wrt_iff_nth_less)

lemma sweep_step_invariant:
  assumes inv: "invariant t" and sw: "swept_upto k t" and k: "k < length (places t)"
  shows "invariant (sweep_step k t) \<and> swept_upto (Suc k) (sweep_step k t)"
proof -
  let ?ps = "places t"
  let ?t' = "sweep_step k t"
  have dist: "distinct ?ps" using inv by (rule invariantD)
  have neq: "?ps ! i \<noteq> ?ps ! k" if "i < k" for i
    using dist k that by (simp add: nth_eq_iff_index_eq)
  have prevconf: "confirmed t (?ps ! i)" if "i < k" "visited t (?ps ! (k - 1))" for i
  proof -
    have c: "confirmed t (?ps ! (k - 1))" using sw that by (auto simp: swept_upto_def)
    show ?thesis
    proof (cases "i = k - 1")
      case True then show ?thesis using c by simp
    next
      case False
      then have "i < k - 1" "k - 1 < length ?ps" using that k by auto
      then show ?thesis using invariantD(4)[OF inv _ _ c] by blast
    qed
  qed
  have I: "invariant ?t'"
  proof (rule invariantI)
    show "distinct (places ?t')" using dist by simp
  next
    fix p assume "confirmed ?t' p"
    then show "visited ?t' p \<and> map_of (placesVisited ?t') p = Some True"
      using invariantD(2,3)[OF inv, of p]
      by (auto simp: sweep_step_visited sweep_step_confirmed sweep_step_placesVisited split: if_splits)
  next
    fix i j assume ij: "i < j" "j < length (places ?t')" "confirmed ?t' (places ?t' ! j)"
    then have j: "j < length ?ps" by simp
    show "confirmed ?t' (places ?t' ! i)"
    proof (cases "j = k")
      case True
      then have v: "visited t (?ps ! k)"
        and d: "confirmed t (?ps ! k) \<or> k = 0 \<or> visited t (?ps ! (k - 1))"
        using ij by (auto simp: sweep_step_confirmed)
      have "k \<noteq> 0" using True ij by simp
      have "confirmed t (?ps ! i)"
        using d
      proof (elim disjE)
        assume "confirmed t (?ps ! k)"
        then show ?thesis using invariantD(4)[OF inv, of i k] ij True k by simp
      next
        assume "k = 0" then show ?thesis using \<open>k \<noteq> 0\<close> by simp
      next
        assume "visited t (?ps ! (k - 1))"
        then show ?thesis using prevconf[of i] ij True by simp
      qed
      then show ?thesis using neq[of i] ij True by (simp add: sweep_step_confirmed)
    next
      case False
      then have cj: "confirmed t (?ps ! j)"
        using ij j dist k by (auto simp: sweep_step_confirmed nth_eq_iff_index_eq split: if_splits)
      then have ci: "confirmed t (?ps ! i)" using invariantD(4)[OF inv, of i j] ij by simp
      show ?thesis
      proof (cases "i = k")
        case True
        have "visited t (?ps ! k)" using ci True invariantD(2)[OF inv] by simp
        then show ?thesis using ci True by (simp add: sweep_step_confirmed)
      next
        case False
        then have "?ps ! i \<noteq> ?ps ! k" using dist k ij j by (simp add: nth_eq_iff_index_eq)
        then show ?thesis using ci by (simp add: sweep_step_confirmed)
      qed
    qed
  next
    show "fst ` set (placesVisited ?t') = set (places ?t')"
      using sweep_step_keys[OF k invariantD(5)[OF inv]] by simp
  next
    show "distinct (map fst (placesVisited ?t'))"
      using sweep_step_distinct_keys[OF invariantD(6)[OF inv]] .
  qed
  have S: "swept_upto (Suc k) ?t'"
    unfolding swept_upto_def
  proof (intro allI impI)
    fix i assume i: "i < Suc k" and v: "visited ?t' (places ?t' ! i)"
    show "confirmed ?t' (places ?t' ! i) \<and> (0 < i \<longrightarrow> visited ?t' (places ?t' ! (i - 1)))"
    proof (cases "i = k")
      case True
      have c': "confirmed ?t' (?ps ! k)" using v True
        by (simp add: sweep_step_visited sweep_step_confirmed)
      have vk: "visited t (?ps ! k)"
        and d: "confirmed t (?ps ! k) \<or> k = 0 \<or> visited t (?ps ! (k - 1))"
        using v True by (auto simp: sweep_step_visited)
      have "visited t (?ps ! (k - 1))" if "0 < k"
        using d
      proof (elim disjE)
        assume "confirmed t (?ps ! k)"
        then have "confirmed t (?ps ! (k - 1))"
          using invariantD(4)[OF inv, of "k - 1" k] that k by simp
        then show ?thesis using invariantD(2)[OF inv] by simp
      qed (use that in auto)
      then have "visited ?t' (?ps ! (k - 1))" if "0 < k"
        using that neq[of "k - 1"] by (simp add: sweep_step_visited)
      then show ?thesis using c' True by simp
    next
      case False
      then have ik: "i < k" using i by simp
      then have v0: "visited t (?ps ! i)" using v neq[of i] by (simp add: sweep_step_visited)
      then have c0: "confirmed t (?ps ! i)" and p0: "0 < i \<longrightarrow> visited t (?ps ! (i - 1))"
        using sw ik by (auto simp: swept_upto_def)
      have "confirmed ?t' (?ps ! i)" using c0 neq[of i] ik by (simp add: sweep_step_confirmed)
      moreover have "visited ?t' (?ps ! (i - 1))" if "0 < i"
        using p0 that neq[of "i - 1"] ik by (simp add: sweep_step_visited)
      ultimately show ?thesis by simp
    qed
  qed
  from I S show ?thesis ..
qed

lemma sweep_prefix:
  "invariant s \<Longrightarrow> k \<le> length (places s) \<Longrightarrow>
   invariant (fold sweep_step [0..<k] s) \<and> swept_upto k (fold sweep_step [0..<k] s)"
proof (induction k)
  case 0
  then show ?case by (simp add: swept_upto_def)
next
  case (Suc k)
  then have IH: "invariant (fold sweep_step [0..<k] s)" "swept_upto k (fold sweep_step [0..<k] s)"
    by simp_all
  have "k < length (places (fold sweep_step [0..<k] s))" using Suc.prems by simp
  from sweep_step_invariant[OF IH this] show ?case by simp
qed

lemma sweep_invariant: "invariant s \<Longrightarrow> invariant (sweep s)"
  using sweep_prefix[of s "length (places s)"] by (simp add: sweep_def)

lemma sweep_swept: "invariant s \<Longrightarrow> swept_upto (length (places s)) (sweep s)"
  using sweep_prefix[of s "length (places s)"] by (simp add: sweep_def)

lemma swept_sequential: "swept_upto (length (places t)) t \<Longrightarrow> sequential t"
  by (auto simp: swept_upto_def sequential_def)

lemma invariant_cong:
  "places s' = places s \<Longrightarrow> visited s' = visited s \<Longrightarrow> placesAt s' = placesAt s \<Longrightarrow>
   placesVisited s' = placesVisited s \<Longrightarrow> invariant s' = invariant s"
  by (simp add: invariant_def confirmed_def)

lemma swept_upto_cong:
  "places s' = places s \<Longrightarrow> visited s' = visited s \<Longrightarrow> placesAt s' = placesAt s \<Longrightarrow>
   swept_upto k s' = swept_upto k s"
  by (simp add: swept_upto_def confirmed_def)

lemma invariant_fields [simp]:
  "invariant (x\<lparr>selectedPlace := a\<rparr>) = invariant x"
  "invariant (x\<lparr>status := b\<rparr>) = invariant x"
  "invariant (x\<lparr>hasArrivedAtSelectedPlace := c\<rparr>) = invariant x"
  "invariant (x\<lparr>emittedAllVisited := c\<rparr>) = invariant x"
  "invariant (x\<lparr>events := evs\<rparr>) = invariant x"
  "invariant (emit ev x) = invariant x"
  "invariant (completionCheck x) = invariant x"
  by (rule invariant_cong; simp)+

lemma swept_upto_fields [simp]:
  "swept_upto k (x\<lparr>selectedPlace := a\<rparr>) = swept_upto k x"
  "swept_upto k (x\<lparr>status := b\<rparr>) = swept_upto k x"
  "swept_upto k (x\<lparr>hasArrivedAtSelectedPlace := c\<rparr>) = swept_upto k x"
  "swept_upto k (x\<lparr>emittedAllVisited := c\<rparr>) = swept_upto k x"
  "swept_upto k (x\<lparr>events := evs\<rparr>) = swept_upto k x"
  "swept_upto k (emit ev x) = swept_upto k x"
  "swept_upto k (completionCheck x) = swept_upto k x"
  by (rule swept_upto_cong; simp)+

lemma invariant_mark_visited:
  "invariant s \<Longrightarrow> invariant (s\<lparr>visited := (visited s)(p := True)\<rparr>)"
  by (auto simp: invariant_def confirmed_def)

lemma invariant_placeUpdate: "invariant s \<Longrightarrow> invariant (placeUpdate e p s)"
  by (simp add: placeUpdate_def invariant_mark_visited)

lemma invariant_arrivalCheck: "invariant s \<Longrightarrow> invariant (arrivalCheck e sp s)"
  by (simp add: arrivalCheck_def Let_def invariant_mark_visited)

lemma invariant_initial: "invariant (initial os)"
  by (simp add: invariant_def initial_def confirmed_def)

lemma invariant_addPlace_body: "invariant s \<Longrightarrow> invariant (addPlace_body p s)"
proof (cases "p \<in> set (places s)")
  case True
  then show "invariant s \<Longrightarrow> ?thesis" by (simp add: addPlace_body_def)
next
  case False
  assume inv: "invariant s"
  have c: "confirmed (addPlace_body p s) q = (q \<noteq> p \<and> confirmed s q)" for q
    using False by (auto simp: addPlace_body_def confirmed_def map_of_AList_update)
  have srt: "sorted_wrt (\<lambda>a b. confirmed s b \<longrightarrow> confirmed s a) (places s)"
    using inv by (simp add: invariant_def)
  have srt': "sorted_wrt (\<lambda>a b. (b \<noteq> p \<and> confirmed s b) \<longrightarrow> (a \<noteq> p \<and> confirmed s a)) (places s)"
    by (rule sorted_wrt_mono_rel[OF _ srt]) (use False in auto)
  have pl: "places (addPlace_body p s) = places s @ [p]"
    and vi: "visited (addPlace_body p s) = visited s"
    and pv: "placesVisited (addPlace_body p s) = AList.update p False (placesVisited s)"
    using False by (simp_all add: addPlace_body_def)
  show ?thesis
    unfolding invariant_def c pl vi pv
    using inv False srt'
    by (auto simp: invariant_def map_of_AList_update dom_update sorted_wrt_append distinct_update)
qed

lemma invariant_removePlace: "invariant s \<Longrightarrow> invariant (removePlace p s)"
proof -
  assume inv: "invariant s"
  let ?s1 = "s\<lparr>places := filter (\<lambda>m. m \<noteq> p) (places s),
                 placesVisited := AList.delete p (placesVisited s),
                 placesAt := AList.delete p (placesAt s)\<rparr>"
  have c: "confirmed ?s1 q = (q \<noteq> p \<and> confirmed s q)" for q
    by (auto simp: confirmed_def delete_conv')
  have srt: "sorted_wrt (\<lambda>a b. confirmed s b \<longrightarrow> confirmed s a) (filter (\<lambda>m. m \<noteq> p) (places s))"
    using inv by (simp add: invariant_def sorted_wrt_filter)
  have "sorted_wrt (\<lambda>a b. (b \<noteq> p \<and> confirmed s b) \<longrightarrow> (a \<noteq> p \<and> confirmed s a)) (filter (\<lambda>m. m \<noteq> p) (places s))"
    by (rule sorted_wrt_mono_rel[OF _ srt]) auto
  then have "invariant ?s1"
    unfolding invariant_def c using inv
    by (auto simp: invariant_def delete_conv' keys_delete distinct_delete)
  then show ?thesis by (simp add: removePlace_def Let_def)
qed

lemma invariant_update: "invariant s \<Longrightarrow> invariant (update e s)"
proof -
  assume inv: "invariant s"
  show ?thesis
  proof (cases "selectedPlace s")
    case (Ref sp)
    show ?thesis
      using invariant_arrivalCheck[OF inv, of e sp]
      by (auto simp: update_selected[OF Ref] Let_def intro!: sweep_invariant split: option.splits)
  qed (simp_all add: update_no_selection sweep_invariant inv)
qed

lemma invariant_navigateToPlace: "invariant s \<Longrightarrow> invariant (navigateToPlace e pl s)"
  by (auto simp: navigateToPlace.simps[of e pl s] Let_def
      intro!: invariant_update invariant_addPlace_body split: option.splits)

lemma invariant_step: "invariant s \<Longrightarrow> invariant (step a s)"
  by (cases a)
     (auto simp: addPlace_def invariant_update invariant_placeUpdate invariant_addPlace_body
        invariant_removePlace invariant_navigateToPlace split: option.splits)

lemma reachable_invariant: "reachable s \<Longrightarrow> invariant s"
  by (induction rule: reachable.induct) (simp_all add: invariant_initial invariant_step)

lemma update_swept: "invariant s \<Longrightarrow> swept_upto (length (places (update e s))) (update e s)"
proof -
  assume inv: "invariant s"
  have main: "invariant x \<Longrightarrow> swept_upto (length (places (completionCheck (sweep x)))) (completionCheck (sweep x))" for x
    using sweep_swept[of x] by simp
  show ?thesis
  proof (cases "selectedPlace s")
    case (Ref sp)
    show ?thesis
      unfolding update_selected[OF Ref]
      apply (rule main)
      using invariant_arrivalCheck[OF inv, of e sp]
      by (auto simp: Let_def intro!: sweep_invariant split: option.splits)
  qed (use sweep_swept[OF inv] in \<open>simp_all add: update_no_selection\<close>)
qed

section \<open>Runs and reachable states\<close>

lemma run_simps [simp]:
  "run [] s = s" "run (a # acts) s = run acts (step a s)" "run (xs @ ys) s = run ys (run xs s)"
  by (simp_all add: run_def)

lemma reachable_run: "reachable s \<Longrightarrow> reachable (run acts s)"
  by (induction acts arbitrary: s) (simp_all add: reachable_step)

lemma reachable_from_initial: "reachable (run acts (initial os))"
  by (rule reachable_run) (rule reachable_initial)

lemma reachable_update: "reachable s \<Longrightarrow> reachable (update e s)"
  using reachable_step[of s "Tick e"] by simp

section \<open>Sequential order\<close>

text \<open>
  C1 (amended). In every reachable state, at the end of a tick of the component no place of
  the list is visited while the place before it in the list is unvisited. (Between ticks the
  per-frame callback of a place can set its flag while the place before it is unvisited; the
  sweep of the next tick then resets it.)
\<close>

theorem sequential_after_tick:
  "reachable s \<Longrightarrow> sequential (update e s)"
  by (rule swept_sequential) (rule update_swept, rule reachable_invariant)

text \<open>
  C1 as stated fails: with two registered places and the user within 10 m of both, the
  per-frame callback of the second place sets its flag while the first is unvisited.
\<close>

theorem sequential_unlock_counterexample:
  "reachable (run [AddPlace (Some 0), AddPlace (Some 1), PlaceUpdate (near 5) 1] (initial plain_objs))
   \<and> places (run [AddPlace (Some 0), AddPlace (Some 1), PlaceUpdate (near 5) 1] (initial plain_objs)) = [0, 1]
   \<and> \<not> visited (run [AddPlace (Some 0), AddPlace (Some 1)] (initial plain_objs)) 1
   \<and> visited (run [AddPlace (Some 0), AddPlace (Some 1), PlaceUpdate (near 5) 1] (initial plain_objs)) 1
   \<and> \<not> visited (run [AddPlace (Some 0), AddPlace (Some 1), PlaceUpdate (near 5) 1] (initial plain_objs)) 0
   \<and> \<not> sequential (run [AddPlace (Some 0), AddPlace (Some 1), PlaceUpdate (near 5) 1] (initial plain_objs))"
proof -
  let ?s = "run [AddPlace (Some 0), AddPlace (Some 1), PlaceUpdate (near 5) 1] (initial plain_objs)"
  have p: "places ?s = [0, 1]" by code_simp
  have v1: "visited ?s 1" by code_simp
  have v0: "\<not> visited ?s 0" by code_simp
  have b: "\<not> visited (run [AddPlace (Some 0), AddPlace (Some 1)] (initial plain_objs)) 1" by code_simp
  have "\<not> sequential ?s"
  proof
    assume "sequential ?s"
    then have "Suc 0 < length (places ?s) \<longrightarrow> visited ?s (places ?s ! Suc 0) \<longrightarrow> visited ?s (places ?s ! 0)"
      unfolding sequential_def by blast
    then show False using p v1 v0 by simp
  qed
  then show ?thesis using p v1 v0 b reachable_from_initial by blast
qed

theorem sequential_after_tick_witness:
  "reachable (run [AddPlace (Some 0), AddPlace (Some 1), PlaceUpdate (near 5) 1] (initial plain_objs))
   \<and> sequential (update (near 5)
        (run [AddPlace (Some 0), AddPlace (Some 1), PlaceUpdate (near 5) 1] (initial plain_objs)))
   \<and> \<not> visited (update (near 5)
        (run [AddPlace (Some 0), AddPlace (Some 1), PlaceUpdate (near 5) 1] (initial plain_objs))) 1"
proof -
  let ?s = "run [AddPlace (Some 0), AddPlace (Some 1), PlaceUpdate (near 5) 1] (initial plain_objs)"
  have r: "reachable ?s" by (rule reachable_from_initial)
  have "\<not> visited (update (near 5) ?s) 1" by code_simp
  then show ?thesis using r sequential_after_tick[OF r, of "near 5"] by blast
qed

section \<open>The per-frame callback of a place\<close>

text \<open>
  C9. The per-frame callback of a place sets the flag of that place exactly when its distance
  to the user is not null and strictly below \<open>distanceToVisit\<close>; the test reads only the
  fields of the place and the user position (not the list, the selection or the flags of other
  places), and the callback never resets a flag.
\<close>

theorem place_marks_itself_visited:
  "placeUpdate e p s = s\<lparr>visited := (visited s)(p := visited s p \<or> checkVisited e s p)\<rparr>
   \<and> (checkVisited e s p \<longleftrightarrow>
        (\<exists>d. getPhysicalDistance e s p = Some d \<and> d < distanceToVisit (objs s p)))
   \<and> (objs s' p = objs s p \<longrightarrow> checkVisited e s' p = checkVisited e s p)
   \<and> (visited s q \<longrightarrow> visited (placeUpdate e p s) q)"
  by (auto simp: placeUpdate_def checkVisited_def getPhysicalDistance_def split: option.splits)

theorem place_marks_itself_visited_witness:
  "checkVisited (near 5) (run [AddPlace (Some 0), AddPlace (Some 1)] (initial plain_objs)) 1
   \<and> \<not> visited (run [AddPlace (Some 0), AddPlace (Some 1)] (initial plain_objs)) 0
   \<and> selectedPlace (run [AddPlace (Some 0), AddPlace (Some 1)] (initial plain_objs)) = Undefined
   \<and> objs (initial plain_objs) 1 = objs (run [AddPlace (Some 0), AddPlace (Some 1)] (initial plain_objs)) 1
   \<and> checkVisited (near 5) (initial plain_objs) 1
   \<and> visited (placeUpdate (near 5) 1 (run [AddPlace (Some 0), AddPlace (Some 1)] (initial plain_objs))) 1
   \<and> visited (placeUpdate (near 5) 1
        (placeUpdate (near 5) 1 (run [AddPlace (Some 0), AddPlace (Some 1)] (initial plain_objs)))) 1"
proof -
  let ?s = "run [AddPlace (Some 0), AddPlace (Some 1)] (initial plain_objs)"
  have c: "checkVisited (near 5) ?s 1" by code_simp
  have o: "objs (initial plain_objs) 1 = objs ?s 1" by code_simp
  have n: "\<not> visited ?s 0" "selectedPlace ?s = Undefined" by code_simp+
  from place_marks_itself_visited[of "near 5" 1 ?s "initial plain_objs" 1] c o
  have c': "checkVisited (near 5) (initial plain_objs) 1" by simp
  have v: "visited (placeUpdate (near 5) 1 ?s) 1"
    using place_marks_itself_visited[of "near 5" 1 ?s ?s 1] c by (simp add: placeUpdate_def)
  have "visited (placeUpdate (near 5) 1 (placeUpdate (near 5) 1 ?s)) 1"
    using place_marks_itself_visited[of "near 5" 1 "placeUpdate (near 5) 1 ?s" ?s 1] v by blast
  then show ?thesis using c o n c' v by blast
qed

section \<open>Events of the sweep\<close>

lemma sweep_step_events:
  "events (sweep_step i s) =
     events s @ (if visited s (places s ! i) \<and> \<not> confirmed s (places s ! i)
                    \<and> (i = 0 \<or> visited s (places s ! (i - 1)))
                 then [ArrivedAtPlace (places s ! i)] else [])"
  by (auto simp: sweep_step_def Let_def confirmed_def)

lemma sweep_step_counts [simp]:
  "allVisitedCount (sweep_step i s) = allVisitedCount s"
  "navigationStartedCount (sweep_step i s) = navigationStartedCount s"
  by (simp_all add: allVisitedCount_def navigationStartedCount_def sweep_step_events)

lemma fold_sweep_step_counts [simp]:
  "allVisitedCount (fold sweep_step is s) = allVisitedCount s"
  "navigationStartedCount (fold sweep_step is s) = navigationStartedCount s"
  by (induction "is" arbitrary: s; simp)+

lemma sweep_counts [simp]:
  "allVisitedCount (sweep s) = allVisitedCount s"
  "navigationStartedCount (sweep s) = navigationStartedCount s"
  by (simp_all add: sweep_def)

lemma fold_sweep_step_outside:
  "q \<notin> set (places s) \<Longrightarrow> \<forall>i \<in> set is. i < length (places s) \<Longrightarrow>
   visited (fold sweep_step is s) q = visited s q
   \<and> arrivedCount q (fold sweep_step is s) = arrivedCount q s"
proof (induction "is" arbitrary: s)
  case Nil
  then show ?case by simp
next
  case (Cons i "is")
  have i: "i < length (places s)" using Cons.prems by simp
  then have ne: "q \<noteq> places s ! i" using Cons.prems(1) by (metis nth_mem)
  have "visited (sweep_step i s) q = visited s q" using ne by (simp add: sweep_step_visited)
  moreover have "arrivedCount q (sweep_step i s) = arrivedCount q s"
    using ne by (simp add: arrivedCount_def sweep_step_events)
  moreover have "visited (fold sweep_step is (sweep_step i s)) q = visited (sweep_step i s) q
   \<and> arrivedCount q (fold sweep_step is (sweep_step i s)) = arrivedCount q (sweep_step i s)"
    using Cons.prems by (intro Cons.IH) simp_all
  ultimately show ?case by simp
qed

lemma sweep_outside:
  "q \<notin> set (places s) \<Longrightarrow> visited (sweep s) q = visited s q"
  "q \<notin> set (places s) \<Longrightarrow> arrivedCount q (sweep s) = arrivedCount q s"
  using fold_sweep_step_outside[of q s "[0..<length (places s)]"] by (simp_all add: sweep_def)

lemma fold_sweep_step_visited_mono:
  "visited (fold sweep_step is s) q \<Longrightarrow> visited s q"
proof (induction "is" arbitrary: s)
  case Nil
  then show ?case by simp
next
  case (Cons i "is")
  then have "visited (sweep_step i s) q" by simp
  then show ?case by (simp add: sweep_step_visited split: if_splits)
qed

lemma sweep_visited_mono: "visited (sweep s) q \<Longrightarrow> visited s q"
  unfolding sweep_def by (rule fold_sweep_step_visited_mono)

lemma count_fields [simp]:
  "arrivedCount p (emit ev s) = arrivedCount p s + (if ev = ArrivedAtPlace p then 1 else 0)"
  "allVisitedCount (emit ev s) = allVisitedCount s + (if ev = AllPlacesVisited then 1 else 0)"
  "navigationStartedCount (emit ev s) = navigationStartedCount s + (if isNavigationStarted ev then 1 else 0)"
  by (simp_all add: arrivedCount_def allVisitedCount_def navigationStartedCount_def)

lemma count_cong:
  "events s' = events s \<Longrightarrow> arrivedCount p s' = arrivedCount p s"
  "events s' = events s \<Longrightarrow> allVisitedCount s' = allVisitedCount s"
  "events s' = events s \<Longrightarrow> navigationStartedCount s' = navigationStartedCount s"
  by (simp_all add: arrivedCount_def allVisitedCount_def navigationStartedCount_def)

lemma arrivedCount_updates [simp]:
  "arrivedCount p (s\<lparr>selectedPlace := a\<rparr>) = arrivedCount p s"
  "arrivedCount p (s\<lparr>status := b\<rparr>) = arrivedCount p s"
  "arrivedCount p (s\<lparr>hasArrivedAtSelectedPlace := c\<rparr>) = arrivedCount p s"
  "arrivedCount p (s\<lparr>emittedAllVisited := c\<rparr>) = arrivedCount p s"
  "arrivedCount p (s\<lparr>visited := v\<rparr>) = arrivedCount p s"
  "arrivedCount p (s\<lparr>places := ps\<rparr>) = arrivedCount p s"
  "arrivedCount p (s\<lparr>placesAt := m\<rparr>) = arrivedCount p s"
  "arrivedCount p (s\<lparr>placesVisited := m\<rparr>) = arrivedCount p s"
  by (simp_all add: arrivedCount_def)

lemma allVisitedCount_updates [simp]:
  "allVisitedCount (s\<lparr>selectedPlace := a\<rparr>) = allVisitedCount s"
  "allVisitedCount (s\<lparr>status := b\<rparr>) = allVisitedCount s"
  "allVisitedCount (s\<lparr>hasArrivedAtSelectedPlace := c\<rparr>) = allVisitedCount s"
  "allVisitedCount (s\<lparr>emittedAllVisited := c\<rparr>) = allVisitedCount s"
  "allVisitedCount (s\<lparr>visited := v\<rparr>) = allVisitedCount s"
  "allVisitedCount (s\<lparr>places := ps\<rparr>) = allVisitedCount s"
  "allVisitedCount (s\<lparr>placesAt := m\<rparr>) = allVisitedCount s"
  "allVisitedCount (s\<lparr>placesVisited := m\<rparr>) = allVisitedCount s"
  by (simp_all add: allVisitedCount_def)

lemma navigationStartedCount_updates [simp]:
  "navigationStartedCount (s\<lparr>selectedPlace := a\<rparr>) = navigationStartedCount s"
  "navigationStartedCount (s\<lparr>status := b\<rparr>) = navigationStartedCount s"
  "navigationStartedCount (s\<lparr>hasArrivedAtSelectedPlace := c\<rparr>) = navigationStartedCount s"
  "navigationStartedCount (s\<lparr>emittedAllVisited := c\<rparr>) = navigationStartedCount s"
  "navigationStartedCount (s\<lparr>visited := v\<rparr>) = navigationStartedCount s"
  "navigationStartedCount (s\<lparr>places := ps\<rparr>) = navigationStartedCount s"
  "navigationStartedCount (s\<lparr>placesAt := m\<rparr>) = navigationStartedCount s"
  "navigationStartedCount (s\<lparr>placesVisited := m\<rparr>) = navigationStartedCount s"
  by (simp_all add: navigationStartedCount_def)

lemma completionCheck_counts [simp]:
  "arrivedCount p (completionCheck s) = arrivedCount p s"
  "navigationStartedCount (completionCheck s) = navigationStartedCount s"
  by (simp_all add: completionCheck_def Let_def)

lemma arrivalCheck_counts [simp]:
  "allVisitedCount (arrivalCheck e sp s) = allVisitedCount s"
  "navigationStartedCount (arrivalCheck e sp s) = navigationStartedCount s"
  by (simp_all add: arrivalCheck_def Let_def)

lemma addPlace_body_counts [simp]:
  "navigationStartedCount (addPlace_body p s) = navigationStartedCount s"
  "arrivedCount q (addPlace_body p s) = arrivedCount q s"
  by (simp_all add: addPlace_body_def)

section \<open>Removing the selected place\<close>

lemma removePlace_frame [simp]:
  "selectedPlace (removePlace p s) = selectedPlace s" "status (removePlace p s) = status s"
  "hasArrivedAtSelectedPlace (removePlace p s) = hasArrivedAtSelectedPlace s"
  "emittedAllVisited (removePlace p s) = emittedAllVisited s"
  "visited (removePlace p s) = visited s" "objs (removePlace p s) = objs s"
  "places (removePlace p s) = filter (\<lambda>m. m \<noteq> p) (places s)"
  "placesVisited (removePlace p s) = AList.delete p (placesVisited s)"
  "placesAt (removePlace p s) = AList.delete p (placesAt s)"
  "arrivedCount q (removePlace p s) = arrivedCount q s"
  by (simp_all add: removePlace_def Let_def)

lemma indexOf_absent: "x \<notin> set xs \<Longrightarrow> indexOf xs x = - 1"
  by (induction xs) (auto simp: Let_def)

lemma indexOf_present: "x \<in> set xs \<Longrightarrow> 0 \<le> indexOf xs x \<and> indexOf xs x < int (length xs)"
  by (induction xs) (auto simp: Let_def)

text \<open>The arrival check of a selected place that is not in the list.\<close>

lemma arrivalCheck_absent:
  assumes "sp \<notin> set (places s)" "\<not> visited s sp" "getDistanceTo e sp = Some d"
    "d \<le> (case distanceToActivate (objs s sp) of Some r \<Rightarrow> r | None \<Rightarrow> 10)"
  shows "arrivalCheck e sp s =
     (emit (ArrivedAtPlace sp) (s\<lparr>visited := (visited s)(sp := True)\<rparr>))
        \<lparr>hasArrivedAtSelectedPlace := True\<rparr>"
  using assms by (simp add: arrivalCheck_def Let_def indexOf_absent at_index_def)

text \<open>
  C10. \<open>removePlace\<close> changes the list and the two maps only: the selected place, the
  status, the two latches and the flags are as before. The removed place is then at index -1
  of the list, so a tick that finds it selected, unvisited and within its activation distance
  marks it visited whatever the flags of the other places are, and invokes
  "arrived at place" for it (twice: on arrival and as the repeated signal).
\<close>

theorem removePlace_keeps_selection:
  "selectedPlace (removePlace p s) = selectedPlace s
   \<and> status (removePlace p s) = status s
   \<and> hasArrivedAtSelectedPlace (removePlace p s) = hasArrivedAtSelectedPlace s
   \<and> emittedAllVisited (removePlace p s) = emittedAllVisited s
   \<and> visited (removePlace p s) = visited s
   \<and> places (removePlace p s) = filter (\<lambda>m. m \<noteq> p) (places s)
   \<and> placesVisited (removePlace p s) = AList.delete p (placesVisited s)
   \<and> placesAt (removePlace p s) = AList.delete p (placesAt s)
   \<and> indexOf (places (removePlace p s)) p = - 1
   \<and> (selectedPlace s = Ref p \<and> \<not> visited s p \<and> getDistanceTo e p = Some d
        \<and> d \<le> (case distanceToActivate (objs s p) of Some r \<Rightarrow> r | None \<Rightarrow> 10)
      \<longrightarrow> visited (update e (removePlace p s)) p
          \<and> arrivedCount p (update e (removePlace p s)) = arrivedCount p s + 2)"
proof -
  let ?r = "removePlace p s"
  have absent: "p \<notin> set (places ?r)" by simp
  have tick: "visited (update e ?r) p \<and> arrivedCount p (update e ?r) = arrivedCount p s + 2"
    if sel: "selectedPlace s = Ref p" and nv: "\<not> visited s p" and d: "getDistanceTo e p = Some d"
      and le: "d \<le> (case distanceToActivate (objs s p) of Some r \<Rightarrow> r | None \<Rightarrow> 10)"
  proof -
    have sel': "selectedPlace ?r = Ref p" using sel by simp
    have ac: "arrivalCheck e p ?r =
       (emit (ArrivedAtPlace p) (?r\<lparr>visited := (visited ?r)(p := True)\<rparr>))
          \<lparr>hasArrivedAtSelectedPlace := True\<rparr>"
      by (rule arrivalCheck_absent[OF absent _ d]) (use nv le in simp_all)
    show ?thesis
      unfolding update_selected[OF sel'] ac
      by (auto simp: Let_def sweep_outside split: option.splits)
  qed
  show ?thesis
    using tick by (simp add: indexOf_absent)
qed

theorem removePlace_keeps_selection_witness:
  "selectedPlace (run [AddPlace (Some 0), AddPlace (Some 1), NavigateToPlace (near 1000) (Some 0)]
      (initial plain_objs)) = Ref 0
   \<and> places (removePlace 0 (run [AddPlace (Some 0), AddPlace (Some 1),
        NavigateToPlace (near 1000) (Some 0)] (initial plain_objs))) = [1]
   \<and> selectedPlace (removePlace 0 (run [AddPlace (Some 0), AddPlace (Some 1),
        NavigateToPlace (near 1000) (Some 0)] (initial plain_objs))) = Ref 0
   \<and> visited (update (near 5) (removePlace 0 (run [AddPlace (Some 0), AddPlace (Some 1),
        NavigateToPlace (near 1000) (Some 0)] (initial plain_objs)))) 0
   \<and> arrivedCount 0 (update (near 5) (removePlace 0 (run [AddPlace (Some 0), AddPlace (Some 1),
        NavigateToPlace (near 1000) (Some 0)] (initial plain_objs))))
       = arrivedCount 0 (run [AddPlace (Some 0), AddPlace (Some 1),
           NavigateToPlace (near 1000) (Some 0)] (initial plain_objs)) + 2"
proof -
  let ?s = "run [AddPlace (Some 0), AddPlace (Some 1), NavigateToPlace (near 1000) (Some 0)]
      (initial plain_objs)"
  have sel: "selectedPlace ?s = Ref 0" by code_simp
  have nv: "\<not> visited ?s 0" by code_simp
  have pl: "places ?s = [0, 1]" by code_simp
  have d: "getDistanceTo (near 5) 0 = Some 5" by (simp add: near_def)
  have le: "(5::real) \<le> (case distanceToActivate (objs ?s 0) of Some r \<Rightarrow> r | None \<Rightarrow> 10)"
    by code_simp
  show ?thesis
    using removePlace_keeps_selection[of 0 ?s "near 5" 5] sel nv pl d le by simp
qed

section \<open>Selecting a place twice\<close>







section \<open>The status after a tick\<close>

lemma nextUnvisited_None:
  "nextUnvisited sp s = None \<longleftrightarrow>
     (\<forall>q \<in> set (drop (nat (indexOf (places s) sp + 1)) (places s)). visited s q)"
  by (auto simp: nextUnvisited_def find_None_iff)

text \<open>
  C2 (amended). After a tick the status is \<open>Succeeded\<close> exactly when either the tick found
  the selected place visited (after its arrival check) and every place after it in the list
  visited, or the tick did not find a selected place visited and the status was \<open>Succeeded\<close>
  before.
\<close>

theorem status_after_tick:
  "status (update e s) = Succeeded \<longleftrightarrow>
     (case selectedPlace s of
        Ref sp \<Rightarrow>
          if visited (arrivalCheck e sp s) sp
          then (\<forall>q \<in> set (drop (nat (indexOf (places s) sp + 1)) (places s)).
                  visited (arrivalCheck e sp s) q)
          else status s = Succeeded
      | _ \<Rightarrow> status s = Succeeded)"
proof (cases "selectedPlace s")
  case (Ref sp)
  define s1 where "s1 = arrivalCheck e sp s"
  have st: "status s1 = status s" by (simp add: s1_def)
  define s2 where "s2 = (emit (ArrivedAtPlace sp) s1)\<lparr>hasArrivedAtSelectedPlace := True\<rparr>"
  have n: "nextUnvisited sp s2 = None \<longleftrightarrow>
     (\<forall>q \<in> set (drop (nat (indexOf (places s) sp + 1)) (places s)). visited s1 q)"
    by (simp add: nextUnvisited_None s2_def s1_def)
  show ?thesis
  proof (cases "visited s1 sp")
    case False
    then show ?thesis
      using Ref st by (simp add: update_selected[OF Ref] Let_def s1_def[symmetric])
  next
    case True
    show ?thesis
    proof (cases "nextUnvisited sp s2")
      case None
      then show ?thesis
        using Ref True n
        by (simp add: update_selected[OF Ref] Let_def s1_def[symmetric] s2_def[symmetric])
    next
      case (Some np)
      then have "nextUnvisited sp s2 \<noteq> None" by simp
      then show ?thesis
        using Ref True n Some
        by (simp add: update_selected[OF Ref] Let_def s1_def[symmetric] s2_def[symmetric])
    qed
  qed
qed (simp_all add: update_no_selection)

text \<open>
  C2 as stated fails in both directions. In the first reachable state the list is not empty
  and every place is visited, while the status is still \<open>Initializing\<close> (one place
  registered and never selected, visited through its own per-frame callback, then a tick).
  In the second the status is \<open>Succeeded\<close> while a place of the list is unvisited (a place
  registered after the only place was arrived at).
\<close>

theorem status_invariant_counterexample:
  "reachable (run [AddPlace (Some 0), PlaceUpdate (near 5) 0, Tick (near 5)] (initial plain_objs))
   \<and> allPlacesVisited (run [AddPlace (Some 0), PlaceUpdate (near 5) 0, Tick (near 5)] (initial plain_objs))
   \<and> status (run [AddPlace (Some 0), PlaceUpdate (near 5) 0, Tick (near 5)] (initial plain_objs))
       = Initializing
   \<and> reachable (run [AddPlace (Some 0), NavigateToPlace (near 1000) (Some 0), Tick (near 5),
        AddPlace (Some 1)] (initial plain_objs))
   \<and> status (run [AddPlace (Some 0), NavigateToPlace (near 1000) (Some 0), Tick (near 5),
        AddPlace (Some 1)] (initial plain_objs)) = Succeeded
   \<and> \<not> allPlacesVisited (run [AddPlace (Some 0), NavigateToPlace (near 1000) (Some 0),
        Tick (near 5), AddPlace (Some 1)] (initial plain_objs))"
proof -
  let ?s = "run [AddPlace (Some 0), PlaceUpdate (near 5) 0, Tick (near 5)] (initial plain_objs)"
  let ?t = "run [AddPlace (Some 0), NavigateToPlace (near 1000) (Some 0), Tick (near 5),
        AddPlace (Some 1)] (initial plain_objs)"
  have "allPlacesVisited ?s" by code_simp
  moreover have "status ?s = Initializing" by code_simp
  moreover have "status ?t = Succeeded" by code_simp
  moreover have "\<not> allPlacesVisited ?t" by code_simp
  ultimately show ?thesis using reachable_from_initial by blast
qed

theorem status_after_tick_witness:
  "selectedPlace (run [AddPlace (Some 0), NavigateToPlace (near 1000) (Some 0)] (initial plain_objs)) = Ref 0
   \<and> status (run [AddPlace (Some 0), NavigateToPlace (near 1000) (Some 0)] (initial plain_objs)) = InProgress
   \<and> status (update (near 5)
        (run [AddPlace (Some 0), NavigateToPlace (near 1000) (Some 0)] (initial plain_objs))) = Succeeded"
proof -
  let ?s = "run [AddPlace (Some 0), NavigateToPlace (near 1000) (Some 0)] (initial plain_objs)"
  have sel: "selectedPlace ?s = Ref 0" by code_simp
  have st: "status ?s = InProgress" by code_simp
  have v: "visited (arrivalCheck (near 5) 0 ?s) 0" by code_simp
  have n: "\<forall>q \<in> set (drop (nat (indexOf (places ?s) 0 + 1)) (places ?s)).
                  visited (arrivalCheck (near 5) 0 ?s) q" by code_simp
  show ?thesis
    using status_after_tick[of "near 5" ?s] sel st v n by simp
qed

section \<open>The completion latch\<close>

lemma allVisited_fold:
  "fold (\<lambda>(pl, v) a. a \<and> v) m b = (b \<and> (\<forall>x \<in> set m. snd x))"
  by (induction m arbitrary: b) auto

lemma emittedAllVisited_completionCheck:
  "emittedAllVisited (completionCheck s) =
     (emittedAllVisited s \<or> (placesVisited s \<noteq> [] \<and> (\<forall>x \<in> set (placesVisited s). snd x)))"
  by (auto simp: completionCheck_def Let_def allVisited_fold)

lemma allVisitedCount_completionCheck:
  "allVisitedCount (completionCheck s) =
     allVisitedCount s + (if \<not> emittedAllVisited s \<and> emittedAllVisited (completionCheck s) then 1 else 0)"
  by (auto simp: completionCheck_def Let_def allVisited_fold)

lemma latched_refl [simp]: "latched_step s s"
  by (simp add: latched_step_def)

lemma latched_trans: "latched_step s t \<Longrightarrow> latched_step t u \<Longrightarrow> latched_step s u"
  by (auto simp: latched_step_def split: if_splits)

lemma latched_cong:
  "allVisitedCount t' = allVisitedCount t \<Longrightarrow> emittedAllVisited t' = emittedAllVisited t \<Longrightarrow>
   latched_step s t' = latched_step s t"
  by (simp add: latched_step_def)

lemma latched_completionCheck: "latched_step s t \<Longrightarrow> latched_step s (completionCheck t)"
proof (rule latched_trans)
  show "latched_step t (completionCheck t)"
    by (auto simp: latched_step_def allVisitedCount_completionCheck emittedAllVisited_completionCheck)
qed

lemma latched_simps [simp]:
  "latched_step s (sweep t) = latched_step s t"
  "latched_step s (arrivalCheck e sp t) = latched_step s t"
  "latched_step s (placeUpdate e p t) = latched_step s t"
  "latched_step s (emit (ArrivedAtPlace p) t) = latched_step s t"
  "latched_step s (emit (NavigationStarted pl) t) = latched_step s t"
  "latched_step s (t\<lparr>selectedPlace := a\<rparr>) = latched_step s t"
  "latched_step s (t\<lparr>status := b\<rparr>) = latched_step s t"
  "latched_step s (t\<lparr>hasArrivedAtSelectedPlace := c\<rparr>) = latched_step s t"
  by (rule latched_cong; simp add: placeUpdate_def)+

lemma latched_update: "latched_step s (update e s)"
proof (cases "selectedPlace s")
  case (Ref sp)
  show ?thesis
    by (auto simp: update_selected[OF Ref] Let_def intro!: latched_completionCheck
        split: option.splits)
qed (simp_all add: update_no_selection latched_completionCheck)

lemma latched_removePlace: "latched_step s (removePlace p s)"
proof -
  have "latched_step s (removePlace p s) = latched_step s s"
    by (rule latched_cong) (simp_all add: removePlace_def Let_def)
  then show ?thesis by simp
qed

lemma latched_navigateToPlace:
  assumes "\<not> registers (NavigateToPlace e pl) s"
  shows "latched_step s (navigateToPlace e pl s)"
proof (cases "selectedPlace s = toSelected pl")
  case True
  then show ?thesis by (simp add: navigateToPlace_same)
next
  case False
  define s2 where
    "s2 = s\<lparr>status := (case pl of None \<Rightarrow> LocationNotSelected | Some _ \<Rightarrow> InProgress)\<rparr>"
  have known: "case pl of None \<Rightarrow> True | Some p \<Rightarrow> p \<in> set (places s)"
    using assms False by (cases pl) (auto simp: toSelected_def)
  have eq: "navigateToPlace e pl s =
      emit (NavigationStarted pl)
        ((update e s2)\<lparr>selectedPlace := toSelected pl, hasArrivedAtSelectedPlace := False\<rparr>)"
    using False known
    by (subst navigateToPlace.simps) (auto simp: Let_def s2_def split: option.splits)
  have "latched_step s s2" by (simp add: s2_def)
  then have "latched_step s (update e s2)" using latched_update by (rule latched_trans)
  then show ?thesis by (simp add: eq)
qed

lemma latched_step_action: "\<not> registers a s \<Longrightarrow> latched_step s (step a s)"
proof (cases a)
  case (AddPlace pl)
  assume "\<not> registers a s"
  then show ?thesis using AddPlace by (cases pl) (simp_all add: addPlace_def addPlace_body_def)
next
  case (NavigateToPlace e pl)
  assume "\<not> registers a s"
  then show ?thesis using NavigateToPlace by (simp add: latched_navigateToPlace)
qed (simp_all add: latched_update latched_removePlace)

lemma latched_run: "noRegistration acts s \<Longrightarrow> latched_step s (run acts s)"
proof (induction acts arbitrary: s)
  case Nil
  then show ?case by simp
next
  case (Cons a acts)
  then have "latched_step s (step a s)" "latched_step (step a s) (run acts (step a s))"
    by (simp_all add: latched_step_action)
  then show ?case using latched_trans by simp
qed

lemma update_is_completionCheck: "\<exists>u. update e s = completionCheck u"
  by (subst update.simps) blast

lemma update_latches:
  assumes inv: "invariant s" and all: "allPlacesVisited (update e s)"
  shows "emittedAllVisited (update e s)"
proof -
  let ?t = "update e s"
  obtain u where u: "?t = completionCheck u" using update_is_completionCheck by blast
  have it: "invariant ?t" using inv by (rule invariant_update)
  have sw: "swept_upto (length (places ?t)) ?t" using inv by (rule update_swept)
  have ne: "placesVisited ?t \<noteq> []"
  proof
    assume "placesVisited ?t = []"
    then have "set (places ?t) = {}" using invariantD(5)[OF it] by simp
    then show False using all by (simp add: allPlacesVisited_def)
  qed
  have tr: "snd x" if x: "x \<in> set (placesVisited ?t)" for x
  proof -
    have "fst x \<in> set (places ?t)" using x invariantD(5)[OF it] by auto
    then obtain i where i: "i < length (places ?t)" "places ?t ! i = fst x"
      by (auto simp: in_set_conv_nth)
    have "visited ?t (fst x)" using all \<open>fst x \<in> set (places ?t)\<close> by (simp add: allPlacesVisited_def)
    then have "confirmed ?t (fst x)" using sw i by (auto simp: swept_upto_def)
    then have "map_of (placesVisited ?t) (fst x) = Some True" by (rule invariantD(3)[OF it])
    moreover have "map_of (placesVisited ?t) (fst x) = Some (snd x)"
      using invariantD(6)[OF it] x by (cases x) (simp add: map_of_is_SomeI del: map_of_eq_Some_iff)
    ultimately show ?thesis by simp
  qed
  have "emittedAllVisited (completionCheck u)"
    unfolding emittedAllVisited_completionCheck
    using ne tr u by (metis completionCheck_frame(4))
  then show ?thesis using u by simp
qed

text \<open>
  C6 (amended). Start in a reachable state in which the latch is not set (it is not set in
  the initial state, and the registration of a new place resets it), and let any actions
  follow that register no further place: ticks, per-frame callbacks of places, removals, and
  selections of registered places or of none. If at the end of one of the ticks the list is
  not empty and every registered place is visited, then "all places visited" has been
  invoked exactly once since the start, however many such actions follow.
\<close>

theorem completion_latch:
  assumes "reachable s" and "\<not> emittedAllVisited s"
    and "noRegistration acts1 s"
    and "allPlacesVisited (update e (run acts1 s))"
    and "noRegistration acts2 (update e (run acts1 s))"
  shows "allVisitedCount (run acts2 (update e (run acts1 s))) = allVisitedCount s + 1"
proof -
  let ?t = "update e (run acts1 s)"
  have "invariant (run acts1 s)" using assms(1) by (intro reachable_invariant reachable_run)
  then have lt: "emittedAllVisited ?t" using assms(4) by (rule update_latches)
  have "latched_step s ?t"
    using latched_run[OF assms(3)] latched_update[of "run acts1 s" e] by (rule latched_trans)
  then have c: "allVisitedCount ?t = allVisitedCount s + 1"
    using assms(2) lt by (simp add: latched_step_def)
  have "latched_step ?t (run acts2 ?t)" using assms(5) by (rule latched_run)
  then show ?thesis using lt c by (simp add: latched_step_def split: if_splits)
qed

text \<open>
  C6 as stated fails: a place is registered and visited, a tick invokes "all places
  visited"; a second place is then registered and visited, and a later tick invokes the event
  again. At the end every registered place is visited and the event has been invoked twice.
\<close>

theorem completion_latch_counterexample:
  "reachable (run [AddPlace (Some 0), PlaceUpdate (near 5) 0, Tick (near 5), AddPlace (Some 1),
      PlaceUpdate (near 5) 1, Tick (near 5), Tick (near 5)] (initial plain_objs))
   \<and> allPlacesVisited (run [AddPlace (Some 0), PlaceUpdate (near 5) 0, Tick (near 5)]
        (initial plain_objs))
   \<and> allVisitedCount (run [AddPlace (Some 0), PlaceUpdate (near 5) 0, Tick (near 5)]
        (initial plain_objs)) = 1
   \<and> allPlacesVisited (run [AddPlace (Some 0), PlaceUpdate (near 5) 0, Tick (near 5),
        AddPlace (Some 1), PlaceUpdate (near 5) 1, Tick (near 5), Tick (near 5)]
        (initial plain_objs))
   \<and> allVisitedCount (run [AddPlace (Some 0), PlaceUpdate (near 5) 0, Tick (near 5),
        AddPlace (Some 1), PlaceUpdate (near 5) 1, Tick (near 5), Tick (near 5)]
        (initial plain_objs)) = 2"
proof -
  let ?s = "run [AddPlace (Some 0), PlaceUpdate (near 5) 0, Tick (near 5)] (initial plain_objs)"
  let ?t = "run [AddPlace (Some 0), PlaceUpdate (near 5) 0, Tick (near 5), AddPlace (Some 1),
      PlaceUpdate (near 5) 1, Tick (near 5), Tick (near 5)] (initial plain_objs)"
  have "allPlacesVisited ?s" by code_simp
  moreover have "allVisitedCount ?s = 1" by code_simp
  moreover have "allPlacesVisited ?t" by code_simp
  moreover have "allVisitedCount ?t = 2" by code_simp
  ultimately show ?thesis using reachable_from_initial by blast
qed

theorem completion_latch_witness:
  "reachable (run [AddPlace (Some 0), AddPlace (Some 1), NavigateToPlace (near 1000) (Some 0)]
      (initial plain_objs))
   \<and> \<not> emittedAllVisited (run [AddPlace (Some 0), AddPlace (Some 1),
        NavigateToPlace (near 1000) (Some 0)] (initial plain_objs))
   \<and> allPlacesVisited (update (near 5) (run [Tick (near 5), PlaceUpdate (near 5) 0]
        (run [AddPlace (Some 0), AddPlace (Some 1), NavigateToPlace (near 1000) (Some 0)]
          (initial plain_objs))))
   \<and> allVisitedCount (run [Tick (near 5), NavigateToPlace (near 5) (Some 1), RemovePlace 0,
          PlaceUpdate (near 5) 1, Tick (near 1000), NavigateToPlace no_fix None, Tick no_fix]
        (update (near 5) (run [Tick (near 5), PlaceUpdate (near 5) 0]
          (run [AddPlace (Some 0), AddPlace (Some 1), NavigateToPlace (near 1000) (Some 0)]
            (initial plain_objs)))))
     = allVisitedCount (run [AddPlace (Some 0), AddPlace (Some 1),
          NavigateToPlace (near 1000) (Some 0)] (initial plain_objs)) + 1"
proof -
  define s where "s = run [AddPlace (Some 0), AddPlace (Some 1), NavigateToPlace (near 1000) (Some 0)]
      (initial plain_objs)"
  define acts1 where "acts1 = [Tick (near 5), PlaceUpdate (near 5) 0]"
  define acts2 where "acts2 = [Tick (near 5), NavigateToPlace (near 5) (Some 1), RemovePlace 0,
          PlaceUpdate (near 5) 1, Tick (near 1000), NavigateToPlace no_fix None, Tick no_fix]"
  have r: "reachable s" unfolding s_def by (rule reachable_from_initial)
  have l: "\<not> emittedAllVisited s" unfolding s_def by code_simp
  have n1: "noRegistration acts1 s" unfolding s_def acts1_def by code_simp
  have a: "allPlacesVisited (update (near 5) (run acts1 s))"
    unfolding s_def acts1_def by code_simp
  have n2: "noRegistration acts2 (update (near 5) (run acts1 s))"
    unfolding s_def acts1_def acts2_def by code_simp
  show ?thesis
    using completion_latch[OF r l n1 a n2] r l a unfolding s_def acts1_def acts2_def by blast
qed

section \<open>Arrival at the first of two places\<close>

lemma sweep_two: "length (places t) = 2 \<Longrightarrow> sweep t = sweep_step 1 (sweep_step 0 t)"
  by (simp add: sweep_def numeral_2_eq_2)

lemma arrivedCount_sweep_step:
  "arrivedCount p (sweep_step i s) =
     arrivedCount p s + (if p = places s ! i \<and> visited s p \<and> \<not> confirmed s p
                            \<and> (i = 0 \<or> visited s (places s ! (i - 1))) then 1 else 0)"
  by (auto simp: arrivedCount_def sweep_step_events)

lemma confirmed_fields [simp]:
  "confirmed (s\<lparr>selectedPlace := a\<rparr>) = confirmed s"
  "confirmed (s\<lparr>status := b\<rparr>) = confirmed s"
  "confirmed (s\<lparr>hasArrivedAtSelectedPlace := c\<rparr>) = confirmed s"
  "confirmed (s\<lparr>visited := v\<rparr>) = confirmed s"
  "confirmed (s\<lparr>events := evs\<rparr>) = confirmed s"
  "confirmed (emit ev s) = confirmed s"
  "confirmed (completionCheck s) = confirmed s"
  "confirmed (arrivalCheck e sp s) = confirmed s"
  by (simp_all add: confirmed_def fun_eq_iff)

lemma arrivalCheck_first:
  assumes "places s = sp # rest" "\<not> visited s sp" "getDistanceTo e sp = Some d"
    "d \<le> (case distanceToActivate (objs s sp) of Some r \<Rightarrow> r | None \<Rightarrow> 10)"
  shows "arrivalCheck e sp s =
     (emit (ArrivedAtPlace sp) (s\<lparr>visited := (visited s)(sp := True)\<rparr>))
        \<lparr>hasArrivedAtSelectedPlace := True\<rparr>"
  using assms by (simp add: arrivalCheck_def Let_def at_index_def)

text \<open>
  C3 (amended). The scenario of two places: a reachable state with the places A, B in the
  list, A a place built by \<open>GeoLocationPlace\<close> with an activation radius of 10 m, A selected,
  both places unvisited, and the user's distance to A within A's activation radius. One tick
  marks A visited, makes B the selected place, and invokes "arrived at place" for A three
  times: on arrival, as the repeated signal, and when the sweep confirms A.
\<close>

theorem arrival_at_first_of_two:
  assumes "reachable s" and "places s = [A, B]" and "selectedPlace s = Ref A"
    and "\<not> visited s A" and "\<not> visited s B"
    and "distanceToActivate (objs s A) = None" and "distanceToVisit (objs s A) = 10"
    and "getDistanceTo e A = Some d"
    and "d \<le> distanceToVisit (objs s A)"
  shows "visited (update e s) A \<and> selectedPlace (update e s) = Ref B
         \<and> arrivedCount A (update e s) = arrivedCount A s + 3"
proof -
  have le: "d \<le> (case distanceToActivate (objs s A) of Some r \<Rightarrow> r | None \<Rightarrow> 10)"
    using assms(6,7,9) by simp
  have inv: "invariant s" using assms(1) by (rule reachable_invariant)
  have AB: "A \<noteq> B" using invariantD(1)[OF inv] assms(2) by simp
  have ncA: "\<not> confirmed s A" and ncB: "\<not> confirmed s B"
    using invariantD(2)[OF inv] assms(4,5) by blast+
  have ac: "arrivalCheck e A s =
     (emit (ArrivedAtPlace A) (s\<lparr>visited := (visited s)(A := True)\<rparr>))
        \<lparr>hasArrivedAtSelectedPlace := True\<rparr>"
    by (rule arrivalCheck_first[OF assms(2) assms(4) assms(8) le])
  define s2 where "s2 = (emit (ArrivedAtPlace A) (arrivalCheck e A s))\<lparr>hasArrivedAtSelectedPlace := True\<rparr>"
  have s2: "places s2 = [A, B]" "visited s2 A" "\<not> visited s2 B" "confirmed s2 = confirmed s"
    "arrivedCount A s2 = arrivedCount A s + 2"
    using assms(2,5) AB by (simp_all add: s2_def ac)
  have nx: "nextUnvisited A s2 = Some B"
    using s2 AB by (simp add: nextUnvisited_def)
  define x0 where "x0 = s2\<lparr>selectedPlace := Null, status := InProgress\<rparr>"
  have x0: "places x0 = [A, B]" "visited x0 A" "\<not> visited x0 B" "confirmed x0 = confirmed s"
    "arrivedCount A x0 = arrivedCount A s + 2"
    using s2 by (simp_all add: x0_def)
  define y where "y = sweep x0"
  have y: "places y = [A, B]" "visited y A" "\<not> visited y B" "confirmed y A"
    "arrivedCount A y = arrivedCount A s + 3"
    using x0 AB ncA ncB
    by (simp_all add: y_def sweep_two sweep_step_visited sweep_step_confirmed arrivedCount_sweep_step)
  define x where "x = emit (NavigationStarted (Some B))
          ((completionCheck y)\<lparr>selectedPlace := Ref B, hasArrivedAtSelectedPlace := False\<rparr>)"
  have x: "places x = [A, B]" "visited x A" "\<not> visited x B" "confirmed x A"
    "arrivedCount A x = arrivedCount A s + 3" "selectedPlace x = Ref B"
    using y by (simp_all add: x_def)
  have va: "visited (arrivalCheck e A s) A" by (simp add: ac)
  have upd: "update e s = completionCheck (sweep x)"
    unfolding x_def y_def x0_def
    using va nx[unfolded s2_def]
    by (simp add: update_selected[OF assms(3)] Let_def s2_def)
  show ?thesis
    unfolding upd using x AB
    by (simp add: sweep_two sweep_step_visited sweep_step_confirmed arrivedCount_sweep_step)
qed

text \<open>
  C3 as stated fails: with two places of radius 10 m, the first selected and unvisited and
  the user 5 m away, the tick invokes "arrived at place" for the first place three times,
  not once.
\<close>

theorem arrival_event_count_counterexample:
  "places (run [AddPlace (Some 0), AddPlace (Some 1), NavigateToPlace (near 1000) (Some 0)]
      (initial plain_objs)) = [0, 1]
   \<and> selectedPlace (run [AddPlace (Some 0), AddPlace (Some 1), NavigateToPlace (near 1000) (Some 0)]
      (initial plain_objs)) = Ref 0
   \<and> \<not> visited (run [AddPlace (Some 0), AddPlace (Some 1), NavigateToPlace (near 1000) (Some 0)]
      (initial plain_objs)) 0
   \<and> getDistanceTo (near 5) 0 = Some 5
   \<and> distanceToVisit (objs (run [AddPlace (Some 0), AddPlace (Some 1),
        NavigateToPlace (near 1000) (Some 0)] (initial plain_objs)) 0) = 10
   \<and> arrivedCount 0 (update (near 5) (run [AddPlace (Some 0), AddPlace (Some 1),
        NavigateToPlace (near 1000) (Some 0)] (initial plain_objs)))
      = arrivedCount 0 (run [AddPlace (Some 0), AddPlace (Some 1),
          NavigateToPlace (near 1000) (Some 0)] (initial plain_objs)) + 3"
  by code_simp

theorem arrival_at_first_of_two_witness:
  "reachable (run [AddPlace (Some 0), AddPlace (Some 1), NavigateToPlace (near 1000) (Some 0)]
      (initial plain_objs))
   \<and> distanceToVisit (objs (run [AddPlace (Some 0), AddPlace (Some 1),
        NavigateToPlace (near 1000) (Some 0)] (initial plain_objs)) 0) = 10
   \<and> getDistanceTo (near 5) 0 = Some 5
   \<and> visited (update (near 5) (run [AddPlace (Some 0), AddPlace (Some 1),
        NavigateToPlace (near 1000) (Some 0)] (initial plain_objs))) 0
   \<and> selectedPlace (update (near 5) (run [AddPlace (Some 0), AddPlace (Some 1),
        NavigateToPlace (near 1000) (Some 0)] (initial plain_objs))) = Ref 1
   \<and> arrivedCount 0 (update (near 5) (run [AddPlace (Some 0), AddPlace (Some 1),
        NavigateToPlace (near 1000) (Some 0)] (initial plain_objs)))
      = arrivedCount 0 (run [AddPlace (Some 0), AddPlace (Some 1),
          NavigateToPlace (near 1000) (Some 0)] (initial plain_objs)) + 3"
proof -
  let ?s = "run [AddPlace (Some 0), AddPlace (Some 1), NavigateToPlace (near 1000) (Some 0)]
      (initial plain_objs)"
  have r: "reachable ?s" by (rule reachable_from_initial)
  have p: "places ?s = [0, 1]" by code_simp
  have sel: "selectedPlace ?s = Ref 0" by code_simp
  have v0: "\<not> visited ?s 0" and v1: "\<not> visited ?s 1" by code_simp+
  have da: "distanceToActivate (objs ?s 0) = None" by code_simp
  have dv: "distanceToVisit (objs ?s 0) = 10" by code_simp
  have d: "getDistanceTo (near 5) 0 = Some 5" by (simp add: near_def)
  have le: "(5::real) \<le> distanceToVisit (objs ?s 0)" by code_simp
  show ?thesis
    using arrival_at_first_of_two[OF r p sel v0 v1 da dv d le] r dv d by blast
qed

section \<open>A flag set out of order\<close>

lemma fold_sweep_step_blocked_count:
  assumes "distinct (places t)" and "Suc i < length (places t)"
    and "\<not> visited t (places t ! i)" and "k \<le> length (places t)"
  shows "arrivedCount (places t ! Suc i) (fold sweep_step [0..<k] t)
           = arrivedCount (places t ! Suc i) t"
  using assms(4)
proof (induction k)
  case 0
  then show ?case by simp
next
  case (Suc k)
  let ?u = "fold sweep_step [0..<k] t"
  have nb: "\<not> visited ?u (places t ! i)"
    using assms(3) fold_sweep_step_visited_mono by blast
  have "\<not> (places t ! Suc i = places ?u ! k \<and> (k = 0 \<or> visited ?u (places ?u ! (k - 1))))"
  proof
    assume a: "places t ! Suc i = places ?u ! k \<and> (k = 0 \<or> visited ?u (places ?u ! (k - 1)))"
    then have "places t ! Suc i = places t ! k" by simp
    then have "k = Suc i" using assms(1,2) Suc.prems by (simp add: nth_eq_iff_index_eq)
    then show False using a nb by simp
  qed
  then have "arrivedCount (places t ! Suc i) (sweep_step k ?u) = arrivedCount (places t ! Suc i) ?u"
    by (auto simp: arrivedCount_sweep_step)
  then show ?case using Suc by simp
qed

lemma sweep_blocks:
  assumes inv: "invariant t" and i: "Suc i < length (places t)"
    and B: "\<not> visited t (places t ! i)"
  shows "invariant (sweep t) \<and> \<not> visited (sweep t) (places t ! i)
         \<and> \<not> visited (sweep t) (places t ! Suc i)
         \<and> arrivedCount (places t ! Suc i) (sweep t) = arrivedCount (places t ! Suc i) t"
proof -
  have nb: "\<not> visited (sweep t) (places t ! i)" using B sweep_visited_mono by blast
  have "swept_upto (length (places t)) (sweep t)" using inv by (rule sweep_swept)
  then have "visited (sweep t) (places t ! Suc i) \<longrightarrow> visited (sweep t) (places t ! i)"
    using i by (auto simp: swept_upto_def)
  then have nc: "\<not> visited (sweep t) (places t ! Suc i)" using nb by blast
  have "arrivedCount (places t ! Suc i) (sweep t) = arrivedCount (places t ! Suc i) t"
    unfolding sweep_def
    by (rule fold_sweep_step_blocked_count[OF invariantD(1)[OF inv] i B]) simp
  then show ?thesis using sweep_invariant[OF inv] nb nc by simp
qed

lemma visited_arrivalCheck_other:
  "q \<noteq> sp \<Longrightarrow> visited (arrivalCheck e sp s) q = visited s q"
  by (simp add: arrivalCheck_def Let_def)

lemma arrivedCount_arrivalCheck_other:
  "q \<noteq> sp \<Longrightarrow> arrivedCount q (arrivalCheck e sp s) = arrivedCount q s"
  by (simp add: arrivalCheck_def Let_def)

text \<open>
  C5 (amended). In a reachable state let C be a place of the list that is not selected and
  is unvisited, and let the place before it in the list be unvisited. If the flag of C is
  then set from outside, and the tick does not mark the place before C visited in its
  arrival check (that place is not the selected place, or it is and the check does not fire),
  the tick resets the flag of C and does not invoke "arrived at place" for C.
\<close>

theorem out_of_order_flag_reverted:
  assumes "reachable s" and "Suc i < length (places s)"
    and "\<not> visited s (places s ! i)" and "\<not> visited s (places s ! Suc i)"
    and "selectedPlace s \<noteq> Ref (places s ! Suc i)"
    and "selectedPlace s = Ref (places s ! i) \<longrightarrow>
           \<not> visited (arrivalCheck e (places s ! i) (setVisited (places s ! Suc i) True s)) (places s ! i)"
  shows "\<not> visited (update e (setVisited (places s ! Suc i) True s)) (places s ! Suc i)
         \<and> arrivedCount (places s ! Suc i) (update e (setVisited (places s ! Suc i) True s))
             = arrivedCount (places s ! Suc i) s"
proof -
  define B where "B = places s ! i"
  define C where "C = places s ! Suc i"
  define s' where "s' = setVisited C True s"
  have inv: "invariant s" using assms(1) by (rule reachable_invariant)
  have BC: "B \<noteq> C"
    using invariantD(1)[OF inv] assms(2) by (simp add: B_def C_def nth_eq_iff_index_eq)
  let ?P = "\<lambda>t. invariant t \<and> places t = places s \<and> \<not> visited t B
              \<and> arrivedCount C t = arrivedCount C s"
  let ?Q = "\<lambda>t. ?P t \<and> \<not> visited t C"
  have sw: "?Q (sweep t)" if "?P t" for t
    using sweep_blocks[of t i] that assms(2) by (simp add: B_def C_def)
  have fin: "?Q (completionCheck (sweep t))" if "?P t" for t
    using sw[OF that] by simp
  have P': "?P s'"
    using inv assms(3) BC
    by (simp add: s'_def setVisited_def invariant_mark_visited B_def[symmetric])
  have sel': "selectedPlace s' = selectedPlace s" by (simp add: s'_def setVisited_def)
  have goal: "?Q (update e s')"
  proof (cases "selectedPlace s'")
    case (Ref sp)
    have spC: "sp \<noteq> C" using Ref sel' assms(5) by (simp add: C_def)
    define s1 where "s1 = arrivalCheck e sp s'"
    have nb1: "\<not> visited s1 B"
    proof (cases "sp = B")
      case True
      then show ?thesis using assms(6) Ref sel' by (simp add: s1_def s'_def B_def C_def)
    next
      case False
      then show ?thesis using P' by (simp add: s1_def visited_arrivalCheck_other)
    qed
    have P1: "?P s1"
      using P' nb1 spC by (simp add: s1_def invariant_arrivalCheck arrivedCount_arrivalCheck_other)
    define s2 where "s2 = (emit (ArrivedAtPlace sp) s1)\<lparr>hasArrivedAtSelectedPlace := True\<rparr>"
    have P2: "?P s2" using P1 spC by (simp add: s2_def)
    have P3: "?P (s2\<lparr>selectedPlace := Null, status := Succeeded\<rparr>)" using P2 by simp
    have P0: "?P (s2\<lparr>selectedPlace := Null, status := InProgress\<rparr>)" using P2 by simp
    have P4: "?P (emit (NavigationStarted (Some np))
                    ((completionCheck (sweep (s2\<lparr>selectedPlace := Null, status := InProgress\<rparr>)))
                       \<lparr>selectedPlace := Ref np, hasArrivedAtSelectedPlace := False\<rparr>))" for np
      using fin[OF P0] by simp
    show ?thesis
      unfolding update_selected[OF Ref] Let_def s1_def[symmetric] s2_def[symmetric]
      using fin[OF P1] fin[OF P3] fin[OF P4]
      by (simp split: option.splits)
  next
    case Undefined
    then show ?thesis using fin[OF P'] by (simp add: update_no_selection)
  next
    case Null
    then show ?thesis using fin[OF P'] by (simp add: update_no_selection)
  qed
  then show ?thesis by (simp add: s'_def C_def)
qed

text \<open>
  C5 as stated fails: C = place 1 is not selected and is flagged from outside while the place
  before it, place 0, is unvisited; place 0 is the selected place and the user is 5 m from it.
  The tick marks place 0 visited first, so the sweep confirms place 1 and invokes "arrived at
  place" for it.
\<close>

theorem out_of_order_flag_counterexample:
  "places (run [AddPlace (Some 0), AddPlace (Some 1), NavigateToPlace (near 1000) (Some 0)]
      (initial plain_objs)) = [0, 1]
   \<and> selectedPlace (run [AddPlace (Some 0), AddPlace (Some 1), NavigateToPlace (near 1000) (Some 0)]
      (initial plain_objs)) = Ref 0
   \<and> \<not> visited (run [AddPlace (Some 0), AddPlace (Some 1), NavigateToPlace (near 1000) (Some 0)]
      (initial plain_objs)) 0
   \<and> \<not> visited (run [AddPlace (Some 0), AddPlace (Some 1), NavigateToPlace (near 1000) (Some 0)]
      (initial plain_objs)) 1
   \<and> visited (update (near 5) (setVisited 1 True (run [AddPlace (Some 0), AddPlace (Some 1),
        NavigateToPlace (near 1000) (Some 0)] (initial plain_objs)))) 1
   \<and> arrivedCount 1 (update (near 5) (setVisited 1 True (run [AddPlace (Some 0), AddPlace (Some 1),
        NavigateToPlace (near 1000) (Some 0)] (initial plain_objs))))
      = arrivedCount 1 (run [AddPlace (Some 0), AddPlace (Some 1),
          NavigateToPlace (near 1000) (Some 0)] (initial plain_objs)) + 1"
  by code_simp

theorem out_of_order_flag_reverted_witness:
  "reachable (run [AddPlace (Some 0), AddPlace (Some 1), NavigateToPlace (near 1000) (Some 0)]
      (initial plain_objs))
   \<and> visited (setVisited 1 True (run [AddPlace (Some 0), AddPlace (Some 1),
        NavigateToPlace (near 1000) (Some 0)] (initial plain_objs))) 1
   \<and> \<not> visited (update (near 1000) (setVisited 1 True (run [AddPlace (Some 0), AddPlace (Some 1),
        NavigateToPlace (near 1000) (Some 0)] (initial plain_objs)))) 1
   \<and> arrivedCount 1 (update (near 1000) (setVisited 1 True (run [AddPlace (Some 0), AddPlace (Some 1),
        NavigateToPlace (near 1000) (Some 0)] (initial plain_objs))))
      = arrivedCount 1 (run [AddPlace (Some 0), AddPlace (Some 1),
          NavigateToPlace (near 1000) (Some 0)] (initial plain_objs))"
proof -
  define s where "s = run [AddPlace (Some 0), AddPlace (Some 1), NavigateToPlace (near 1000) (Some 0)]
      (initial plain_objs)"
  have r: "reachable s" unfolding s_def by (rule reachable_from_initial)
  have p: "places s = [0, 1]" unfolding s_def by code_simp
  have sel: "selectedPlace s = Ref 0" unfolding s_def by code_simp
  have v0: "\<not> visited s 0" and v1: "\<not> visited s 1" unfolding s_def by code_simp+
  have a: "\<not> visited (arrivalCheck (near 1000) 0 (setVisited 1 True s)) 0"
    unfolding s_def by code_simp
  have f: "visited (setVisited 1 True s) 1" by (simp add: setVisited_def)
  have "\<not> visited (update (near 1000) (setVisited (places s ! Suc 0) True s)) (places s ! Suc 0)
         \<and> arrivedCount (places s ! Suc 0) (update (near 1000) (setVisited (places s ! Suc 0) True s))
             = arrivedCount (places s ! Suc 0) s"
    by (rule out_of_order_flag_reverted[OF r]) (use sel v0 v1 a in \<open>simp_all add: p\<close>)
  then have "\<not> visited (update (near 1000) (setVisited 1 True s)) 1
         \<and> arrivedCount 1 (update (near 1000) (setVisited 1 True s)) = arrivedCount 1 s"
    by (simp add: p)
  then show ?thesis using r f unfolding s_def by blast
qed

section \<open>The relative position\<close>

text \<open>
  C4. What the code does: \<open>getRelativePosition\<close> never returns null. Whenever it returns a
  point, the Y coordinate of the point is that of the anchor transform; without a fix (and
  without geo localization) the null distance and the null bearing count as 0 in the
  arithmetic, and the result is the world position of the anchor transform, not null.
\<close>

theorem getRelativePosition_never_null:
  "getRelativePosition e s p \<noteq> Inr None
   \<and> (getRelativePosition e s p = Inr (Some v) \<longrightarrow> vy v = vy (transformWorldPosition e))
   \<and> (userGeoPosition e = None \<and> \<not> geoLocalizationAvailable e
        \<longrightarrow> getRelativePosition e s p = Inr (Some (transformWorldPosition e)))"
  by (auto simp: getRelativePosition_def calculateRelativePosition_def getBearing_def
      getPhysicalDistance_def toNumber_def vec3_add_def uniformScale_def Let_def
      split: sum.splits option.splits)

theorem getRelativePosition_never_null_witness:
  "userGeoPosition no_fix = None \<and> \<not> geoLocalizationAvailable no_fix
   \<and> getRelativePosition no_fix (initial plain_objs) 0 = Inr (Some \<lparr>vx = 1, vy = 2, vz = 3\<rparr>)"
  using getRelativePosition_never_null[of no_fix "initial plain_objs" 0]
  by (simp add: no_fix_def)

section \<open>Registration from the inputs\<close>

lemma start_append:
  "snd (start parse g0 pre s) = None \<Longrightarrow>
   start parse g0 (pre @ rest) s = start parse g0 rest (fst (start parse g0 pre s))"
  by (induction pre arbitrary: s)
     (auto simp: Let_def split: sum.splits prod.splits if_splits)

lemma start_skip:
  "\<not> input_active m \<Longrightarrow>
   start parse g0 (pre @ m # post) s = start parse g0 (pre @ post) s"
  by (induction pre arbitrary: s)
     (auto simp: Let_def split: sum.splits prod.splits if_splits)

text \<open>
  C8 (amended). If the inputs before it were registered without error, an active input whose
  longitude or latitude does not parse makes \<open>start\<close> fail with an error that carries the
  malformed string (the longitude is converted first); the state is the one reached before
  this input, so no place is built or added for it. An inactive input is skipped without
  being parsed.
\<close>

theorem start_malformed:
  "(input_active m \<and> (parse (input_latitude m) = None \<or> parse (input_longitude m) = None)
      \<and> snd (start parse g0 pre s) = None
    \<longrightarrow> start parse g0 (pre @ m # post) s =
          (fst (start parse g0 pre s),
           Some (MalformedCoordinate
             (if parse (input_longitude m) = None then input_longitude m else input_latitude m))))
   \<and> (\<not> input_active m \<longrightarrow> start parse g0 (pre @ m # post) s = start parse g0 (pre @ post) s)"
  by (auto simp: start_append start_skip convertToNumber_def split: option.splits)

text \<open>
  C8 as stated fails for an input that is not active: its longitude does not parse, and
  \<open>start\<close> ends without an error (and adds nothing).
\<close>

theorem start_malformed_counterexample:
  "example_parse ''abc'' = None
   \<and> snd (start example_parse origin [example_input False ''50.45'' ''abc''] (initial plain_objs)) = None
   \<and> places (fst (start example_parse origin [example_input False ''50.45'' ''abc'']
        (initial plain_objs))) = []"
  by code_simp

theorem start_malformed_witness:
  "example_parse ''abc'' = None
   \<and> snd (start example_parse origin [example_input True ''50.45'' ''30.52''] (initial plain_objs)) = None
   \<and> snd (start example_parse origin
        [example_input True ''50.45'' ''30.52'', example_input True ''50.45'' ''abc'',
         example_input True ''30.52'' ''50.45''] (initial plain_objs))
      = Some (MalformedCoordinate ''abc'')
   \<and> places (fst (start example_parse origin
        [example_input True ''50.45'' ''30.52'', example_input True ''50.45'' ''abc'',
         example_input True ''30.52'' ''50.45''] (initial plain_objs))) = [0]
   \<and> start example_parse origin
        [example_input True ''50.45'' ''30.52'', example_input False ''50.45'' ''abc'',
         example_input True ''30.52'' ''50.45''] (initial plain_objs)
      = start example_parse origin
        [example_input True ''50.45'' ''30.52'', example_input True ''30.52'' ''50.45'']
        (initial plain_objs)"
proof -
  let ?good = "example_input True ''50.45'' ''30.52''"
  let ?bad = "example_input True ''50.45'' ''abc''"
  let ?off = "example_input False ''50.45'' ''abc''"
  let ?more = "example_input True ''30.52'' ''50.45''"
  let ?s = "initial plain_objs"
  have m: "example_parse ''abc'' = None" by code_simp
  have a: "input_active ?bad" "input_longitude ?bad = ''abc''" "\<not> input_active ?off"
    by (simp_all add: example_input_def)
  have ok: "snd (start example_parse origin [?good] ?s) = None" by code_simp
  have pl: "places (fst (start example_parse origin [?good] ?s)) = [0]" by code_simp
  have 1: "start example_parse origin ([?good] @ ?bad # [?more]) ?s =
          (fst (start example_parse origin [?good] ?s), Some (MalformedCoordinate ''abc''))"
    using start_malformed[of ?bad example_parse origin "[?good]" ?s "[?more]"] m a ok by simp
  have 2: "start example_parse origin ([?good] @ ?off # [?more]) ?s
         = start example_parse origin ([?good] @ [?more]) ?s"
    using start_malformed[of ?off example_parse origin "[?good]" ?s "[?more]"] a by blast
  show ?thesis using m ok pl 1 2 by simp
qed

end
